theory Spec2Isabelle
  imports Main
begin

section \<open>Data model of jit-block.c\<close>

text \<open>
  Blocks and edges live in two stores indexed by natural numbers (their addresses).
  A block pointer that may be null is a \<open>nat option\<close>; \<open>jit_label_undefined\<close> is
  \<open>None\<close> of a \<open>nat option\<close>.  Every \<open>jit_realloc\<close>, \<open>jit_calloc\<close>, \<open>jit_malloc\<close>
  and pool allocation that the source checks takes one unit of \<open>mem\<close>; with
  \<open>mem = 0\<close> it fails.
\<close>

datatype error = JIT_RESULT_OUT_OF_MEMORY | JIT_RESULT_UNDEFINED_LABEL | MEMORY_FAULT

datatype edge_flags = JIT_EDGE_FALLTHRU | JIT_EDGE_BRANCH | JIT_EDGE_RETURN | JIT_EDGE_EXCEPT

text \<open>
  Modelled from the spec: the opcode numbering of jit-opcode.h, which is not part of
  the file.  Section 6 of the specification fixes the classes the file tests for
  (singletons and closed ranges); one constructor stands for each class, the argument
  of a range constructor being the position inside the range.
\<close>

datatype opcode =
    JIT_OP_NOP
  | JIT_OP_MARK_OFFSET
  | JIT_OP_BR
  | JIT_OP_BR_COND nat
  | JIT_OP_RETURN nat
  | JIT_OP_THROW
  | JIT_OP_RETHROW
  | JIT_OP_CALL_FINALLY
  | JIT_OP_CALL_FILTER
  | JIT_OP_CALL nat
  | JIT_OP_JUMP_TABLE
  | JIT_OP_OTHER nat

text \<open>
  An instruction: the opcode, the \<open>dest\<close> label of a branch, and for a jump table
  the label array of \<open>value1\<close>, whose length stands for the count in \<open>value2\<close>.
\<close>

record jit_insn =
  opcode :: opcode
  dest :: "nat option"
  jt_labels :: "nat option list"

record jit_edge =
  e_src :: nat
  e_dst :: nat
  e_flags :: edge_flags

record jit_block =
  b_label :: "nat option"
  b_insns :: "jit_insn list"
  b_succs :: "nat list"
  num_succs :: nat
  b_preds :: "nat list"
  num_preds :: nat
  ends_in_dead :: bool
  visited :: bool
  b_next :: "nat option"
  b_prev :: "nat option"

record label_info =
  li_block :: "nat option"
  li_alias :: "nat option"

record builder =
  blocks :: "nat \<Rightarrow> jit_block"
  edges :: "nat \<Rightarrow> jit_edge"
  entry_block :: "nat option"
  exit_block :: "nat option"
  deleted_blocks :: "nat option"
  label_info :: "label_info list"
  catcher_label :: "nat option"
  block_order :: "nat list"
  next_edge :: nat
  freed_edges :: "nat list"
  destroyed :: "nat list"
  mem :: nat

definition max_label_info :: "builder \<Rightarrow> nat" where
  "max_label_info s = length (label_info s)"

text \<open>A zeroed label-info entry: null block, alias label 0.\<close>

definition zero_info :: label_info where
  "zero_info = \<lparr>li_block = None, li_alias = Some 0\<rparr>"

definition upd_block :: "nat \<Rightarrow> (jit_block \<Rightarrow> jit_block) \<Rightarrow> builder \<Rightarrow> builder" where
  "upd_block b f s = s\<lparr>blocks := (blocks s)(b := f (blocks s b))\<rparr>"

definition upd_edge :: "nat \<Rightarrow> (jit_edge \<Rightarrow> jit_edge) \<Rightarrow> builder \<Rightarrow> builder" where
  "upd_edge e f s = s\<lparr>edges := (edges s)(e := f (edges s e))\<rparr>"

section \<open>Label registry\<close>

text \<open>
  The doubling loop of \<open>_jit_block_record_label\<close>: \<open>while(num <= label) num *= 2\<close>
  on an unsigned integer of \<open>w\<close> bits.  The loop need not end, so the result is an
  option.
\<close>

partial_function (option) grow_num :: "nat \<Rightarrow> nat \<Rightarrow> nat \<Rightarrow> nat option" where
  "grow_num w num label =
     (if num \<le> label then grow_num w ((num * 2) mod 2 ^ w) label else Some num)"

declare grow_num.simps [code]

text \<open>
  The three writes at the end of \<open>_jit_block_record_label\<close>.
\<close>

definition bind_label :: "nat \<Rightarrow> nat \<Rightarrow> builder \<Rightarrow> builder" where
  "bind_label block label s =
     upd_block block (\<lambda>b. b\<lparr>b_label := Some label\<rparr>)
       (s\<lparr>label_info := (label_info s)
            [label := \<lparr>li_block = Some block, li_alias = b_label (blocks s block)\<rparr>]\<rparr>)"

text \<open>
  \<open>_jit_block_record_label\<close>: the result pairs the returned flag (\<open>1\<close> is \<open>True\<close>)
  with the new state.  \<open>sz\<close> is \<open>sizeof(_jit_label_info_t)\<close>, and the size that
  \<open>jit_realloc\<close> receives is the product \<open>num * sz\<close> in unsigned arithmetic of \<open>w\<close> bits.
  A block of \<open>bytes\<close> bytes holds \<open>bytes div sz\<close> entries.  When the product wraps, the
  block is shorter than the \<open>num\<close> entries that \<open>max_label_info\<close> counts from then on:
  \<open>jit_memzero\<close> and the write of the entry run beyond it.  A request of 0 bytes for an
  allocated array releases the array and yields a null pointer, on which the source
  returns 0 with \<open>label_info\<close> still pointing to the released array.  All of these are
  \<open>MEMORY_FAULT\<close>.
\<close>

definition record_label ::
  "nat \<Rightarrow> nat \<Rightarrow> nat \<Rightarrow> nat \<Rightarrow> builder \<Rightarrow> (error + (bool \<times> builder)) option" where
  "record_label w sz block label s =
     (if label \<ge> max_label_info s then
        (case grow_num w (if max_label_info s < 64 then 64 else max_label_info s) label of
           None \<Rightarrow> None
         | Some num \<Rightarrow>
             let bytes = (num * sz) mod 2 ^ w in
             if bytes = 0 \<and> label_info s \<noteq> [] then Some (Inl MEMORY_FAULT)
             else if mem s = 0 then Some (Inr (False, s))
             else if bytes div sz < num then Some (Inl MEMORY_FAULT)
             else Some (Inr (True, bind_label block label
                    (s\<lparr>label_info := label_info s @ replicate (num - max_label_info s) zero_info,
                       mem := mem s - 1\<rparr>))))
      else Some (Inr (True, bind_label block label s)))"

text \<open>\<open>jit_block_from_label\<close>.\<close>

definition block_from_label :: "builder \<Rightarrow> nat option \<Rightarrow> nat option" where
  "block_from_label s label =
     (case label of
        None \<Rightarrow> None
      | Some l \<Rightarrow> if l < max_label_info s then li_block (label_info s ! l) else None)"

text \<open>\<open>jit_block_get_next_label\<close>.\<close>

definition get_next_label :: "builder \<Rightarrow> nat \<Rightarrow> nat option \<Rightarrow> nat option" where
  "get_next_label s block label =
     (case label of
        None \<Rightarrow> b_label (blocks s block)
      | Some l \<Rightarrow>
          if l < max_label_info s \<and> li_block (label_info s ! l) = Some block
          then li_alias (label_info s ! l) else None)"

text \<open>
  \<open>merge_labels\<close>: walks the alias chain from \<open>label\<close>, binding every element to
  \<open>block\<close> and pushing it on the chain of \<open>block\<close>.  The chain may be cyclic, so
  the loop need not end.
\<close>

partial_function (option) merge_labels ::
  "builder \<Rightarrow> nat \<Rightarrow> nat option \<Rightarrow> (error + builder) option" where
  "merge_labels s block label =
     (case label of
        None \<Rightarrow> Some (Inr s)
      | Some l \<Rightarrow>
          if l < max_label_info s then
            merge_labels (bind_label block l s) block (li_alias (label_info s ! l))
          else Some (Inl MEMORY_FAULT))"

declare merge_labels.simps [code]

section \<open>Edge store\<close>

definition ebind :: "error + 'a \<Rightarrow> ('a \<Rightarrow> error + 'b) \<Rightarrow> error + 'b" where
  "ebind r f = (case r of Inl e \<Rightarrow> Inl e | Inr x \<Rightarrow> f x)"

text \<open>
  \<open>create_edge\<close>.  With \<open>create\<close> unset only the two counters move.  Pool addresses
  are handed out in increasing order from \<open>next_edge\<close>.
\<close>

definition create_edge ::
  "nat \<Rightarrow> nat \<Rightarrow> edge_flags \<Rightarrow> bool \<Rightarrow> builder \<Rightarrow> error + builder" where
  "create_edge src dst fl create s =
     ebind
       (if create then
          (if mem s = 0 then Inl JIT_RESULT_OUT_OF_MEMORY
           else
             let edge = next_edge s;
                 s1 = s\<lparr>edges := (edges s)(edge := \<lparr>e_src = src, e_dst = dst, e_flags = fl\<rparr>),
                        next_edge := Suc edge, mem := mem s - 1\<rparr>
             in if num_succs (blocks s1 src) < length (b_succs (blocks s1 src)) then
                  let s2 = upd_block src
                        (\<lambda>b. b\<lparr>b_succs := (b_succs b)[num_succs b := edge]\<rparr>) s1
                  in if num_preds (blocks s2 dst) < length (b_preds (blocks s2 dst)) then
                       Inr (upd_block dst
                         (\<lambda>b. b\<lparr>b_preds := (b_preds b)[num_preds b := edge]\<rparr>) s2)
                     else Inl MEMORY_FAULT
                else Inl MEMORY_FAULT)
        else Inr s)
       (\<lambda>s3. Inr (upd_block dst (\<lambda>b. b\<lparr>num_preds := Suc (num_preds b)\<rparr>)
                   (upd_block src (\<lambda>b. b\<lparr>num_succs := Suc (num_succs b)\<rparr>) s3)))"

text \<open>\<open>_jit_block_get_last\<close>.\<close>

definition block_get_last :: "jit_block \<Rightarrow> jit_insn option" where
  "block_get_last b = (if length (b_insns b) > 0 then Some (last (b_insns b)) else None)"

section \<open>CFG builder\<close>

definition is_return_op :: "opcode \<Rightarrow> bool" where
  "is_return_op opc = (case opc of JIT_OP_RETURN _ \<Rightarrow> True | _ \<Rightarrow> False)"

definition is_cond_branch_op :: "opcode \<Rightarrow> bool" where
  "is_cond_branch_op opc = (case opc of JIT_OP_BR_COND _ \<Rightarrow> True | _ \<Rightarrow> False)"

definition is_call_op :: "opcode \<Rightarrow> bool" where
  "is_call_op opc = (case opc of JIT_OP_CALL _ \<Rightarrow> True | _ \<Rightarrow> False)"

text \<open>The loop over the labels of a \<open>JIT_OP_JUMP_TABLE\<close>.\<close>

fun jump_table_edges ::
  "nat \<Rightarrow> nat option list \<Rightarrow> bool \<Rightarrow> builder \<Rightarrow> error + builder" where
  "jump_table_edges src [] create s = Inr s"
| "jump_table_edges src (l # ls) create s =
     (case block_from_label s l of
        None \<Rightarrow> Inl JIT_RESULT_UNDEFINED_LABEL
      | Some dst \<Rightarrow>
          ebind (create_edge src dst JIT_EDGE_BRANCH create s) (jump_table_edges src ls create))"

text \<open>
  The classification of the last instruction in \<open>build_edges\<close>: the state after the
  edges of a jump table, and the flags and destination of the one explicit edge, if
  there is one (\<open>dst\<close> non-null).
\<close>

definition classify ::
  "nat \<Rightarrow> bool \<Rightarrow> builder \<Rightarrow> error + (builder \<times> (edge_flags \<times> nat) option)" where
  "classify src create s =
     (let insn = block_get_last (blocks s src);
          opc = (case insn of None \<Rightarrow> JIT_OP_NOP | Some i \<Rightarrow> opcode i);
          dlabel = (case insn of None \<Rightarrow> None | Some i \<Rightarrow> dest i);
          labels = (case insn of None \<Rightarrow> [] | Some i \<Rightarrow> jt_labels i)
      in
      if is_return_op opc then
        Inr (s, map_option (Pair JIT_EDGE_RETURN) (exit_block s))
      else if opc = JIT_OP_BR then
        (case block_from_label s dlabel of
           None \<Rightarrow> Inl JIT_RESULT_UNDEFINED_LABEL
         | Some dst \<Rightarrow> Inr (s, Some (JIT_EDGE_BRANCH, dst)))
      else if is_cond_branch_op opc then
        (case block_from_label s dlabel of
           None \<Rightarrow> Inl JIT_RESULT_UNDEFINED_LABEL
         | Some dst \<Rightarrow> Inr (s, Some (JIT_EDGE_BRANCH, dst)))
      else if opc = JIT_OP_THROW \<or> opc = JIT_OP_RETHROW then
        (case block_from_label s (catcher_label s) of
           None \<Rightarrow> Inr (s, map_option (Pair JIT_EDGE_EXCEPT) (exit_block s))
         | Some dst \<Rightarrow> Inr (s, Some (JIT_EDGE_EXCEPT, dst)))
      else if opc = JIT_OP_CALL_FINALLY \<or> opc = JIT_OP_CALL_FILTER then
        (case block_from_label s dlabel of
           None \<Rightarrow> Inl JIT_RESULT_UNDEFINED_LABEL
         | Some dst \<Rightarrow> Inr (s, Some (JIT_EDGE_EXCEPT, dst)))
      else if is_call_op opc then
        (case block_from_label s (catcher_label s) of
           None \<Rightarrow> Inr (s, map_option (Pair JIT_EDGE_EXCEPT) (exit_block s))
         | Some dst \<Rightarrow> Inr (s, Some (JIT_EDGE_EXCEPT, dst)))
      else if opc = JIT_OP_JUMP_TABLE then
        ebind (jump_table_edges src labels create s) (\<lambda>s'. Inr (s', None))
      else Inr (s, None))"

text \<open>The body of the loop of \<open>build_edges\<close> for the block \<open>src\<close>.\<close>

definition build_block_edges :: "nat \<Rightarrow> bool \<Rightarrow> builder \<Rightarrow> error + builder" where
  "build_block_edges src create s =
     ebind (classify src create s) (\<lambda>(s1, ed).
     ebind (case ed of None \<Rightarrow> Inr s1
            | Some (fl, dst) \<Rightarrow> create_edge src dst fl create s1) (\<lambda>s2.
     if \<not> ends_in_dead (blocks s2 src) then
       (case b_next (blocks s2 src) of
          None \<Rightarrow> Inl MEMORY_FAULT
        | Some n \<Rightarrow> create_edge src n JIT_EDGE_FALLTHRU create s2)
     else Inr s2))"

partial_function (option) build_edges_from ::
  "nat option \<Rightarrow> bool \<Rightarrow> builder \<Rightarrow> (error + builder) option" where
  "build_edges_from src create s =
     (if src = exit_block s then Some (Inr s)
      else case src of
        None \<Rightarrow> Some (Inl MEMORY_FAULT)
      | Some b \<Rightarrow>
          (case build_block_edges b create s of
             Inl e \<Rightarrow> Some (Inl e)
           | Inr s' \<Rightarrow> build_edges_from (b_next (blocks s' b)) create s'))"

declare build_edges_from.simps [code]

definition build_edges :: "bool \<Rightarrow> builder \<Rightarrow> (error + builder) option" where
  "build_edges create s = build_edges_from (entry_block s) create s"

text \<open>The body of the loop of \<open>alloc_edges\<close>; \<open>jit_calloc\<close> zeroes the slots.\<close>

definition alloc_block_edges :: "nat \<Rightarrow> builder \<Rightarrow> error + builder" where
  "alloc_block_edges block s =
     ebind
       (if num_succs (blocks s block) = 0 then
          Inr (upd_block block (\<lambda>b. b\<lparr>b_succs := []\<rparr>) s)
        else if mem s = 0 then Inl JIT_RESULT_OUT_OF_MEMORY
        else Inr (upd_block block
               (\<lambda>b. b\<lparr>b_succs := replicate (num_succs b) 0, num_succs := 0\<rparr>)
               (s\<lparr>mem := mem s - 1\<rparr>)))
       (\<lambda>s1.
          if num_preds (blocks s1 block) = 0 then
            Inr (upd_block block (\<lambda>b. b\<lparr>b_preds := []\<rparr>) s1)
          else if mem s1 = 0 then Inl JIT_RESULT_OUT_OF_MEMORY
          else Inr (upd_block block
                 (\<lambda>b. b\<lparr>b_preds := replicate (num_preds b) 0, num_preds := 0\<rparr>)
                 (s1\<lparr>mem := mem s1 - 1\<rparr>)))"

partial_function (option) alloc_edges_from ::
  "nat option \<Rightarrow> builder \<Rightarrow> (error + builder) option" where
  "alloc_edges_from block s =
     (case block of
        None \<Rightarrow> Some (Inr s)
      | Some b \<Rightarrow>
          (case alloc_block_edges b s of
             Inl e \<Rightarrow> Some (Inl e)
           | Inr s' \<Rightarrow> alloc_edges_from (b_next (blocks s' b)) s'))"

declare alloc_edges_from.simps [code]

definition alloc_edges :: "builder \<Rightarrow> (error + builder) option" where
  "alloc_edges s = alloc_edges_from (entry_block s) s"

text \<open>\<open>_jit_block_build_cfg\<close>.\<close>

definition obind :: "(error + 'a) option \<Rightarrow> ('a \<Rightarrow> (error + 'b) option) \<Rightarrow> (error + 'b) option" where
  "obind r f = (case r of None \<Rightarrow> None | Some (Inl e) \<Rightarrow> Some (Inl e) | Some (Inr x) \<Rightarrow> f x)"

definition build_cfg :: "builder \<Rightarrow> (error + builder) option" where
  "build_cfg s = obind (build_edges False s) (\<lambda>s1. obind (alloc_edges s1) (build_edges True))"

section \<open>Edge and block surgery\<close>

text \<open>
  \<open>detach_edge_src\<close> and \<open>detach_edge_dst\<close>: the first occurrence of the edge among the
  counted slots is removed and the array shrunk to the new count.  The search reads
  past the array when the counter exceeds it and the edge is not found before.
\<close>

definition detach_edge_src :: "nat \<Rightarrow> builder \<Rightarrow> error + builder" where
  "detach_edge_src edge s =
     (let block = e_src (edges s edge);
          xs = take (num_succs (blocks s block)) (b_succs (blocks s block))
      in if edge \<in> set xs then
           Inr (upd_block block
             (\<lambda>b. b\<lparr>b_succs := remove1 edge xs, num_succs := num_succs b - 1\<rparr>) s)
         else if length (b_succs (blocks s block)) < num_succs (blocks s block)
         then Inl MEMORY_FAULT
         else Inr s)"

definition detach_edge_dst :: "nat \<Rightarrow> builder \<Rightarrow> error + builder" where
  "detach_edge_dst edge s =
     (let block = e_dst (edges s edge);
          xs = take (num_preds (blocks s block)) (b_preds (blocks s block))
      in if edge \<in> set xs then
           Inr (upd_block block
             (\<lambda>b. b\<lparr>b_preds := remove1 edge xs, num_preds := num_preds b - 1\<rparr>) s)
         else if length (b_preds (blocks s block)) < num_preds (blocks s block)
         then Inl MEMORY_FAULT
         else Inr s)"

text \<open>
  \<open>attach_edge_dst\<close>: \<open>None\<close> is the return value 0 of a failed \<open>jit_realloc\<close>.
  The array is reallocated to the counted slots plus one.
\<close>

definition attach_edge_dst :: "nat \<Rightarrow> nat \<Rightarrow> builder \<Rightarrow> builder option" where
  "attach_edge_dst edge block s =
     (if mem s = 0 then None
      else Some (upd_edge edge (\<lambda>e. e\<lparr>e_dst := block\<rparr>)
             (upd_block block
               (\<lambda>b. b\<lparr>b_preds := take (num_preds b) (b_preds b) @ [edge],
                       num_preds := Suc (num_preds b)\<rparr>)
               (s\<lparr>mem := mem s - 1\<rparr>))))"

definition pool_dealloc :: "nat \<Rightarrow> builder \<Rightarrow> builder" where
  "pool_dealloc edge s = s\<lparr>freed_edges := edge # freed_edges s\<rparr>"

definition delete_edge :: "nat \<Rightarrow> builder \<Rightarrow> error + builder" where
  "delete_edge edge s =
     ebind (detach_edge_src edge s) (\<lambda>s1.
     ebind (detach_edge_dst edge s1) (\<lambda>s2. Inr (pool_dealloc edge s2)))"

text \<open>
  \<open>delete_block\<close>: the three arrays are freed and nulled (the counters are left as
  they are), \<open>next\<close> is set to the head of the deleted list, and the head of the
  deleted list is then set to \<open>block->next\<close>.
\<close>

definition delete_block :: "nat \<Rightarrow> builder \<Rightarrow> builder" where
  "delete_block block s =
     (let s1 = upd_block block
                 (\<lambda>b. b\<lparr>b_succs := [], b_preds := [], b_insns := [],
                         b_next := deleted_blocks s\<rparr>) s
      in s1\<lparr>deleted_blocks := b_next (blocks s1 block)\<rparr>)"

text \<open>\<open>_jit_block_detach\<close>.\<close>

definition block_detach :: "nat \<Rightarrow> nat \<Rightarrow> builder \<Rightarrow> error + builder" where
  "block_detach first lst s =
     (case b_next (blocks s lst) of
        None \<Rightarrow> Inl MEMORY_FAULT
      | Some n \<Rightarrow>
          (let s1 = upd_block n (\<lambda>b. b\<lparr>b_prev := b_prev (blocks s first)\<rparr>) s
           in (case b_prev (blocks s1 first) of
                 None \<Rightarrow> Inl MEMORY_FAULT
               | Some p \<Rightarrow>
                   Inr (upd_block p (\<lambda>b. b\<lparr>b_next := b_next (blocks s1 lst)\<rparr>) s1))))"

definition is_empty_opcode :: "opcode \<Rightarrow> bool" where
  "is_empty_opcode opc = (opc = JIT_OP_NOP \<or> opc = JIT_OP_MARK_OFFSET \<or> opc = JIT_OP_BR)"

definition is_empty_block :: "jit_block \<Rightarrow> bool" where
  "is_empty_block b = list_all (\<lambda>i. is_empty_opcode (opcode i)) (b_insns b)"

text \<open>
  The loop of \<open>merge_empty\<close> over the predecessors of \<open>block\<close>.  It reads the array and
  its counter anew in every round, as the source does: when the successor is the
  block itself the loop appends to the array it walks.  The loop state is the changed
  flag, \<open>fallthru_edge\<close> and \<open>pred_edge\<close> (\<open>None\<close> while unset).
\<close>

partial_function (option) merge_preds ::
  "nat \<Rightarrow> nat \<Rightarrow> nat \<Rightarrow> bool \<Rightarrow> nat option \<Rightarrow> nat option \<Rightarrow> builder \<Rightarrow>
   (error + (bool \<times> nat option \<times> nat option \<times> builder)) option" where
  "merge_preds block succ_block index changed fallthru_edge pred_edge s =
     (if index < num_preds (blocks s block) then
        (if index < length (b_preds (blocks s block)) then
           let pe = b_preds (blocks s block) ! index in
           if e_flags (edges s pe) = JIT_EDGE_FALLTHRU then
             merge_preds block succ_block (Suc index) changed (Some pe) (Some pe) s
           else
             (case attach_edge_dst pe succ_block s of
                None \<Rightarrow> Some (Inl JIT_RESULT_OUT_OF_MEMORY)
              | Some s' \<Rightarrow> merge_preds block succ_block (Suc index) True fallthru_edge (Some pe) s')
         else Some (Inl MEMORY_FAULT))
      else Some (Inr (changed, fallthru_edge, pred_edge, s)))"

declare merge_preds.simps [code]

text \<open>\<open>merge_empty\<close>; the first component of the result is \<open>*changed\<close>.\<close>

definition merge_empty_tail ::
  "nat \<Rightarrow> nat \<Rightarrow> nat \<Rightarrow> bool \<times> nat option \<times> nat option \<times> builder \<Rightarrow> error + (bool \<times> builder)" where
  "merge_empty_tail block succ_edge succ_block r =
     (case r of (changed, fallthru_edge, pred_edge, s) \<Rightarrow>
      ebind
        (case fallthru_edge of
           None \<Rightarrow> Inr (changed, None, s)
         | Some fe \<Rightarrow>
             if e_flags (edges s succ_edge) = JIT_EDGE_FALLTHRU then
               (case pred_edge of
                  None \<Rightarrow> Inl MEMORY_FAULT
                | Some pe \<Rightarrow>
                    (case attach_edge_dst pe succ_block s of
                       None \<Rightarrow> Inl JIT_RESULT_OUT_OF_MEMORY
                     | Some s' \<Rightarrow> Inr (True, None, s')))
             else if num_preds (blocks s block) > 1 then
               Inr (changed, Some fe,
                    upd_block block (\<lambda>b. b\<lparr>num_preds := 1, b_preds := [fe]\<rparr>) s)
             else Inr (changed, Some fe, s))
        (\<lambda>(changed, fallthru_edge, s1).
           if fallthru_edge = None then
             ebind (detach_edge_dst succ_edge s1) (\<lambda>s2.
             ebind (block_detach block block (pool_dealloc succ_edge s2)) (\<lambda>s3.
               Inr (changed, delete_block block s3)))
           else Inr (changed, s1)))"

definition merge_empty :: "nat \<Rightarrow> bool \<Rightarrow> builder \<Rightarrow> (error + (bool \<times> builder)) option" where
  "merge_empty block changed s =
     (case b_succs (blocks s block) of
        [] \<Rightarrow> Some (Inl MEMORY_FAULT)
      | succ_edge # _ \<Rightarrow>
          let succ_block = e_dst (edges s succ_edge) in
          obind (merge_labels s succ_block (b_label (blocks s block))) (\<lambda>s1.
          obind (merge_preds block succ_block 0 changed None None s1) (\<lambda>r.
            Some (merge_empty_tail block succ_edge succ_block r))))"

text \<open>
  \<open>eliminate_block\<close>.  Neither loop changes the array it walks, so each runs over
  the counted slots as they are when it starts.
\<close>

definition counted :: "nat \<Rightarrow> nat list \<Rightarrow> error + nat list" where
  "counted n xs = (if length xs < n then Inl MEMORY_FAULT else Inr (take n xs))"

fun detach_all :: "(nat \<Rightarrow> builder \<Rightarrow> error + builder) \<Rightarrow> nat list \<Rightarrow> builder \<Rightarrow> error + builder" where
  "detach_all d [] s = Inr s"
| "detach_all d (edge # es) s = ebind (d edge s) (\<lambda>s1. detach_all d es (pool_dealloc edge s1))"

definition eliminate_block :: "nat \<Rightarrow> builder \<Rightarrow> error + builder" where
  "eliminate_block block s =
     ebind (block_detach block block s) (\<lambda>s1.
     ebind (counted (num_succs (blocks s1 block)) (b_succs (blocks s1 block))) (\<lambda>ss.
     ebind (detach_all detach_edge_dst ss s1) (\<lambda>s2.
     ebind (counted (num_preds (blocks s2 block)) (b_preds (blocks s2 block))) (\<lambda>ps.
     ebind (detach_all detach_edge_src ps s2) (\<lambda>s3.
       Inr (delete_block block s3))))))"

section \<open>Post-order and cleanup\<close>

text \<open>\<open>eliminate_unreachable\<close>, from the block \<open>block\<close> on.\<close>

partial_function (option) eliminate_unreachable_from ::
  "nat option \<Rightarrow> builder \<Rightarrow> (error + builder) option" where
  "eliminate_unreachable_from block s =
     (if block = exit_block s then Some (Inr s)
      else case block of
        None \<Rightarrow> Some (Inl MEMORY_FAULT)
      | Some b \<Rightarrow>
          let next_block = b_next (blocks s b) in
          if visited (blocks s b) then
            eliminate_unreachable_from next_block (upd_block b (\<lambda>bl. bl\<lparr>visited := False\<rparr>) s)
          else
            (case eliminate_block b s of
               Inl e \<Rightarrow> Some (Inl e)
             | Inr s' \<Rightarrow> eliminate_unreachable_from next_block s'))"

declare eliminate_unreachable_from.simps [code]

definition eliminate_unreachable :: "builder \<Rightarrow> (error + builder) option" where
  "eliminate_unreachable s = eliminate_unreachable_from (entry_block s) s"

partial_function (option) clear_visited_from :: "nat option \<Rightarrow> builder \<Rightarrow> builder option" where
  "clear_visited_from block s =
     (case block of
        None \<Rightarrow> Some s
      | Some b \<Rightarrow>
          clear_visited_from (b_next (blocks s b)) (upd_block b (\<lambda>bl. bl\<lparr>visited := False\<rparr>) s))"

declare clear_visited_from.simps [code]

definition clear_visited :: "builder \<Rightarrow> builder option" where
  "clear_visited s = clear_visited_from (entry_block s) s"

partial_function (option) count_blocks_from :: "nat option \<Rightarrow> nat \<Rightarrow> builder \<Rightarrow> nat option" where
  "count_blocks_from block count s =
     (case block of
        None \<Rightarrow> Some count
      | Some b \<Rightarrow> count_blocks_from (b_next (blocks s b)) (Suc count) s)"

declare count_blocks_from.simps [code]

definition count_blocks :: "builder \<Rightarrow> nat option" where
  "count_blocks s = count_blocks_from (entry_block s) 0 s"

definition free_order :: "builder \<Rightarrow> builder" where
  "free_order s = s\<lparr>block_order := []\<rparr>"

text \<open>
  The do-while loop of \<open>_jit_block_compute_postorder\<close>.  The stack is a list with the
  top frame first; \<open>cap\<close> is the size \<open>num_blocks\<close> of the two arrays, and a write beyond
  either is a fault.
\<close>

partial_function (option) postorder_loop ::
  "nat \<Rightarrow> (nat \<times> nat) list \<Rightarrow> nat list \<Rightarrow> builder \<Rightarrow> (error + (nat list \<times> builder)) option" where
  "postorder_loop cap stack out s =
     (case stack of
        [] \<Rightarrow> Some (Inr (out, s))
      | (block, index) # rest \<Rightarrow>
          if index = num_succs (blocks s block) then
            (if length out < cap then postorder_loop cap rest (out @ [block]) s
             else Some (Inl MEMORY_FAULT))
          else if index < length (b_succs (blocks s block)) then
            (let succ = e_dst (edges s (b_succs (blocks s block) ! index)) in
             if visited (blocks s succ) then
               postorder_loop cap ((block, Suc index) # rest) out s
             else if length stack < cap then
               postorder_loop cap ((succ, 0) # stack) out
                 (upd_block succ (\<lambda>bl. bl\<lparr>visited := True\<rparr>) s)
             else Some (Inl MEMORY_FAULT))
          else Some (Inl MEMORY_FAULT))"

declare postorder_loop.simps [code]

text \<open>
  \<open>_jit_block_compute_postorder\<close>: the flag is the return value; \<open>False\<close> is the failed
  allocation of one of the two arrays.
\<close>

definition compute_postorder :: "builder \<Rightarrow> (error + (bool \<times> builder)) option" where
  "compute_postorder s0 =
     (let s = (if block_order s0 \<noteq> [] then free_order s0 else s0) in
      case count_blocks s of
        None \<Rightarrow> None
      | Some num_blocks \<Rightarrow>
          if mem s < 2 then Some (Inr (False, s\<lparr>mem := 0\<rparr>))
          else
            (case entry_block s of
               None \<Rightarrow> Some (Inl MEMORY_FAULT)
             | Some entry \<Rightarrow>
                 obind (postorder_loop num_blocks [(entry, 0)] []
                          (upd_block entry (\<lambda>bl. bl\<lparr>visited := True\<rparr>) (s\<lparr>mem := mem s - 2\<rparr>)))
                   (\<lambda>(out, s'). Some (Inr (True, s'\<lparr>block_order := out\<rparr>)))))"

text \<open>The body of the for loop of \<open>_jit_block_clean_cfg\<close>, in its two parts.\<close>

definition set_last_opcode :: "nat \<Rightarrow> opcode \<Rightarrow> builder \<Rightarrow> error + builder" where
  "set_last_opcode block opc s =
     (case block_get_last (blocks s block) of
        None \<Rightarrow> Inl MEMORY_FAULT
      | Some insn \<Rightarrow>
          Inr (upd_block block
                 (\<lambda>b. b\<lparr>b_insns := butlast (b_insns b) @ [insn\<lparr>opcode := opc\<rparr>]\<rparr>) s))"

definition clean_branch :: "nat \<Rightarrow> bool \<Rightarrow> builder \<Rightarrow> error + (bool \<times> builder)" where
  "clean_branch block changed s =
     (case b_succs (blocks s block) of
        [] \<Rightarrow> Inl MEMORY_FAULT
      | e0 # es \<Rightarrow>
          if e_flags (edges s e0) = JIT_EDGE_BRANCH then
            (if Some (e_dst (edges s e0)) = b_next (blocks s block) then
               ebind (set_last_opcode block JIT_OP_NOP s) (\<lambda>s1.
                 if num_succs (blocks s1 block) = 1 then
                   Inr (True, upd_edge e0 (\<lambda>e. e\<lparr>e_flags := JIT_EDGE_FALLTHRU\<rparr>)
                               (upd_block block (\<lambda>b. b\<lparr>ends_in_dead := False\<rparr>) s1))
                 else ebind (delete_edge e0 s1) (\<lambda>s2. Inr (True, s2)))
             else if num_succs (blocks s block) = 2 then
               (case b_next (blocks s block) of
                  None \<Rightarrow> Inl MEMORY_FAULT
                | Some n \<Rightarrow>
                    if num_succs (blocks s n) = 1 then
                      (case b_succs (blocks s n) of
                         [] \<Rightarrow> Inl MEMORY_FAULT
                       | n0 # _ \<Rightarrow>
                           if e_flags (edges s n0) = JIT_EDGE_BRANCH
                              \<and> e_dst (edges s e0) = e_dst (edges s n0)
                              \<and> is_empty_block (blocks s n)
                           then
                             ebind (set_last_opcode block JIT_OP_BR s) (\<lambda>s1.
                               (case es of
                                  [] \<Rightarrow> Inl MEMORY_FAULT
                                | e1 # _ \<Rightarrow>
                                    ebind (delete_edge e1
                                       (upd_block block (\<lambda>b. b\<lparr>ends_in_dead := True\<rparr>) s1))
                                      (\<lambda>s2. Inr (True, s2))))
                           else Inr (changed, s))
                    else Inr (changed, s))
             else Inr (changed, s))
          else Inr (changed, s))"

definition clean_block :: "nat \<Rightarrow> bool \<Rightarrow> builder \<Rightarrow> (error + (bool \<times> builder)) option" where
  "clean_block block changed s =
     (if num_succs (blocks s block) = 0 then Some (Inr (changed, s))
      else
        (case clean_branch block changed s of
           Inl e \<Rightarrow> Some (Inl e)
         | Inr (changed1, s1) \<Rightarrow>
             if num_succs (blocks s1 block) = 1 then
               (case b_succs (blocks s1 block) of
                  [] \<Rightarrow> Some (Inl MEMORY_FAULT)
                | e0 # _ \<Rightarrow>
                    if (e_flags (edges s1 e0) = JIT_EDGE_BRANCH
                        \<or> e_flags (edges s1 e0) = JIT_EDGE_FALLTHRU)
                       \<and> is_empty_block (blocks s1 block)
                    then merge_empty block changed1 s1
                    else Some (Inr (changed1, s1)))
             else Some (Inr (changed1, s1))))"

text \<open>
  One pass of the for loop over the blocks at the indices \<open>1 \<dots> num_block_order - 2\<close>
  of the post-order, which the pass does not change.
\<close>

fun clean_pass :: "nat list \<Rightarrow> bool \<Rightarrow> builder \<Rightarrow> (error + (bool \<times> builder)) option" where
  "clean_pass [] changed s = Some (Inr (changed, s))"
| "clean_pass (block # bs) changed s =
     obind (clean_block block changed s) (\<lambda>(changed1, s1). clean_pass bs changed1 s1)"

definition interior :: "nat list \<Rightarrow> nat list" where
  "interior order = butlast (drop 1 order)"

text \<open>The part of \<open>_jit_block_clean_cfg\<close> from the label \<open>loop\<close> on.\<close>

partial_function (option) clean_loop :: "builder \<Rightarrow> (error + builder) option" where
  "clean_loop s =
     (case clean_pass (interior (block_order s)) False s of
        None \<Rightarrow> None
      | Some (Inl e) \<Rightarrow> Some (Inl e)
      | Some (Inr (changed, s1)) \<Rightarrow>
          if changed then
            (case compute_postorder s1 of
               None \<Rightarrow> None
             | Some (Inl e) \<Rightarrow> Some (Inl e)
             | Some (Inr (ok, s2)) \<Rightarrow>
                 if \<not> ok then Some (Inl JIT_RESULT_OUT_OF_MEMORY)
                 else (case clear_visited s2 of
                         None \<Rightarrow> None
                       | Some s3 \<Rightarrow> clean_loop s3))
          else Some (Inr s1))"

declare clean_loop.simps [code]

definition clean_cfg :: "builder \<Rightarrow> (error + builder) option" where
  "clean_cfg s =
     obind (compute_postorder s) (\<lambda>(ok, s1).
       if \<not> ok then Some (Inl JIT_RESULT_OUT_OF_MEMORY)
       else obind (eliminate_unreachable s1) clean_loop)"

text \<open>
  The end of \<open>_jit_block_clean_cfg\<close>, after the for loop: the test of \<open>changed\<close> with
  the jump back to the label \<open>loop\<close>.  Its argument is the outcome of the for loop.
\<close>

definition after_pass :: "(error + (bool \<times> builder)) option \<Rightarrow> (error + builder) option" where
  "after_pass r =
     (case r of
        None \<Rightarrow> None
      | Some (Inl e) \<Rightarrow> Some (Inl e)
      | Some (Inr (changed, s1)) \<Rightarrow>
          if changed then
            (case compute_postorder s1 of
               None \<Rightarrow> None
             | Some (Inl e) \<Rightarrow> Some (Inl e)
             | Some (Inr (ok, s2)) \<Rightarrow>
                 if \<not> ok then Some (Inl JIT_RESULT_OUT_OF_MEMORY)
                 else (case clear_visited s2 of
                         None \<Rightarrow> None
                       | Some s3 \<Rightarrow> clean_loop s3))
          else Some (Inr s1))"

text \<open>
  The state in which \<open>_jit_block_clean_cfg\<close> arrives at the label \<open>loop\<close> for the
  \<open>n + 1\<close>-th time: first after \<open>compute_postorder\<close> and \<open>eliminate_unreachable\<close>, then
  after each for loop that set \<open>changed\<close>, \<open>compute_postorder\<close> and \<open>clear_visited\<close>.
  The for loop runs over the indices \<open>1 \<dots> num_block_order - 2\<close> of \<open>block_order\<close>.
\<close>

primrec loop_state :: "nat \<Rightarrow> builder \<Rightarrow> builder option" where
  "loop_state 0 s =
     (case compute_postorder s of
        Some (Inr (True, s1)) \<Rightarrow>
          (case eliminate_unreachable s1 of Some (Inr t) \<Rightarrow> Some t | _ \<Rightarrow> None)
      | _ \<Rightarrow> None)"
| "loop_state (Suc n) s =
     (case loop_state n s of
        None \<Rightarrow> None
      | Some t \<Rightarrow>
          (case clean_pass (butlast (drop 1 (block_order t))) False t of
             Some (Inr (True, t1)) \<Rightarrow>
               (case compute_postorder t1 of
                  Some (Inr (True, t2)) \<Rightarrow> clear_visited t2
                | _ \<Rightarrow> None)
           | _ \<Rightarrow> None))"

text \<open>
  \<open>_jit_block_free\<close>: \<open>_jit_block_destroy\<close> releases a block; the model records the
  released blocks in \<open>destroyed\<close>.
\<close>

partial_function (option) destroy_from :: "nat option \<Rightarrow> builder \<Rightarrow> builder option" where
  "destroy_from block s =
     (case block of
        None \<Rightarrow> Some s
      | Some b \<Rightarrow> destroy_from (b_next (blocks s b)) (s\<lparr>destroyed := destroyed s @ [b]\<rparr>))"

declare destroy_from.simps [code]

definition block_free :: "builder \<Rightarrow> builder option" where
  "block_free s =
     Option.bind (destroy_from (entry_block s) (free_order s)) (\<lambda>s1.
     Option.bind (destroy_from (deleted_blocks s1) s1) (\<lambda>s2.
       Some (s2\<lparr>entry_block := None, exit_block := None\<rparr>)))"

section \<open>Example functions\<close>

text \<open>
  What the front end builds before the CFG services run: zeroed blocks as
  \<open>_jit_block_create\<close> makes them, linked into the list from the entry block \<open>0\<close> to the
  exit block, filled with instructions, and with labels bound by the three writes of
  \<open>_jit_block_record_label\<close>.
\<close>

definition zero_block :: jit_block where
  "zero_block = \<lparr>b_label = None, b_insns = [], b_succs = [], num_succs = 0, b_preds = [],
     num_preds = 0, ends_in_dead = False, visited = False, b_next = None, b_prev = None\<rparr>"

definition zero_edge :: jit_edge where
  "zero_edge = \<lparr>e_src = 0, e_dst = 0, e_flags = JIT_EDGE_FALLTHRU\<rparr>"

definition zero_builder :: "nat \<Rightarrow> builder" where
  "zero_builder m = \<lparr>blocks = (\<lambda>_. zero_block), edges = (\<lambda>_. zero_edge), entry_block = None,
     exit_block = None, deleted_blocks = None, label_info = [], catcher_label = None,
     block_order = [], next_edge = 0, freed_edges = [], destroyed = [], mem = m\<rparr>"

fun link_blocks :: "nat option \<Rightarrow> nat list \<Rightarrow> builder \<Rightarrow> builder" where
  "link_blocks p [] s = s"
| "link_blocks p (b # bs) s =
     link_blocks (Some b) bs
       (upd_block b
          (\<lambda>bl. bl\<lparr>b_prev := p, b_next := (case bs of [] \<Rightarrow> None | n # _ \<Rightarrow> Some n)\<rparr>) s)"

fun fill_blocks :: "nat \<Rightarrow> (jit_insn list \<times> bool) list \<Rightarrow> builder \<Rightarrow> builder" where
  "fill_blocks b [] s = s"
| "fill_blocks b ((is, d) # r) s =
     fill_blocks (Suc b) r (upd_block b (\<lambda>bl. bl\<lparr>b_insns := is, ends_in_dead := d\<rparr>) s)"

fun bind_labels :: "(nat \<times> nat) list \<Rightarrow> builder \<Rightarrow> builder" where
  "bind_labels [] s = s"
| "bind_labels ((l, b) # r) s = bind_labels r (bind_label b l s)"

text \<open>
  \<open>mk_func m body labels\<close>: the blocks \<open>0, 1, \<dots>\<close> with the instructions and
  \<open>ends_in_dead\<close> flags of \<open>body\<close>, the last one being the exit block; \<open>labels\<close> pairs
  each label with its block; \<open>m\<close> allocations will succeed.
\<close>

definition mk_func :: "nat \<Rightarrow> (jit_insn list \<times> bool) list \<Rightarrow> (nat \<times> nat) list \<Rightarrow> builder" where
  "mk_func m body labels =
     bind_labels labels
       (link_blocks None [0..<length body]
          (fill_blocks 0 body
             ((zero_builder m)\<lparr>entry_block := Some 0, exit_block := Some (length body - 1),
                 label_info := replicate 8 zero_info\<rparr>)))"

definition ins :: "opcode \<Rightarrow> nat option \<Rightarrow> jit_insn" where
  "ins opc d = \<lparr>opcode = opc, dest = d, jt_labels = []\<rparr>"

text \<open>
  Scenario S2 of the specification: \<open>B0:[BR L2]\<close>, \<open>B1:[RETURN]\<close> without label,
  \<open>B2(L2):[RETURN]\<close>, between the entry block \<open>0\<close> and the exit block \<open>4\<close>.
\<close>

definition scenario_S2 :: builder where
  "scenario_S2 = mk_func 100
     [([], False), ([ins JIT_OP_BR (Some 2)], True), ([ins (JIT_OP_RETURN 0) None], True),
      ([ins (JIT_OP_RETURN 0) None], True), ([], False)] [(2, 3)]"

section \<open>Label soundness\<close>

text \<open>
  \<open>alias_chain s h ls\<close>: following the alias links from the head \<open>h\<close> visits exactly the
  labels \<open>ls\<close>, in this order, and ends in \<open>jit_label_undefined\<close>.  A block's labels
  are sound when its \<open>label\<close> field heads such a chain without repetition, every
  label on the chain is bound to the block, and every label bound to the block is on
  the chain.
\<close>

primrec alias_chain :: "builder \<Rightarrow> nat option \<Rightarrow> nat list \<Rightarrow> bool" where
  "alias_chain s h [] = (h = None)"
| "alias_chain s h (l # ls) =
     (h = Some l \<and> l < max_label_info s \<and> alias_chain s (li_alias (label_info s ! l)) ls)"

definition block_labels_ok :: "builder \<Rightarrow> nat \<Rightarrow> bool" where
  "block_labels_ok s B =
     (\<exists>ls. alias_chain s (b_label (blocks s B)) ls \<and> distinct ls
        \<and> (\<forall>l \<in> set ls. li_block (label_info s ! l) = Some B)
        \<and> (\<forall>l < max_label_info s. li_block (label_info s ! l) = Some B \<longrightarrow> l \<in> set ls))"

definition label_sound :: "builder \<Rightarrow> bool" where
  "label_sound s = (\<forall>B. block_labels_ok s B)"


text \<open>
  An empty block 2 (label 1) that branches to the block 5 (label 2) and is entered by
  fall-through from the block 1 and by the branch of the block 3.
\<close>

definition trampoline_example :: builder where
  "trampoline_example = mk_func 100
     [([ins (JIT_OP_BR_COND 0) (Some 3)], False),
      ([ins (JIT_OP_OTHER 0) None, ins (JIT_OP_BR_COND 0) (Some 4)], False),
      ([ins JIT_OP_BR (Some 2)], True),
      ([ins (JIT_OP_OTHER 1) None, ins JIT_OP_BR (Some 1)], True),
      ([ins (JIT_OP_OTHER 2) None, ins (JIT_OP_RETURN 0) None], True),
      ([ins (JIT_OP_OTHER 3) None, ins (JIT_OP_RETURN 0) None], True),
      ([], False)] [(1, 2), (2, 5), (3, 3), (4, 4)]"


text \<open>
  An empty block 1 (label 1) entered by fall-through from the entry block and by the
  conditional branch of its list successor, the block 2.
\<close>

definition loop_back_example :: builder where
  "loop_back_example = mk_func 100
     [([], False), ([ins JIT_OP_NOP None], False),
      ([ins (JIT_OP_OTHER 0) None, ins (JIT_OP_BR_COND 0) (Some 1)], False), ([], False)]
     [(1, 1)]"

text \<open>The state that \<open>_jit_block_build_cfg\<close> leaves, for the examples.\<close>

definition built :: "builder \<Rightarrow> builder" where
  "built s = (case build_cfg s of Some (Inr s') \<Rightarrow> s' | _ \<Rightarrow> s)"


text \<open>
  Three functions with a branch to the list successor: in block 1 behind another
  instruction; in the entry block; and in block 1 of a cycle \<open>1 \<rightarrow> 2 \<rightarrow> 1\<close> that the
  entry block enters at block 2.
\<close>

definition useless_branch_example :: builder where
  "useless_branch_example = mk_func 100
     [([], False), ([ins (JIT_OP_OTHER 0) None, ins JIT_OP_BR (Some 1)], True),
      ([ins (JIT_OP_RETURN 0) None], True), ([], False)] [(1, 2)]"

definition entry_branch_example :: builder where
  "entry_branch_example = mk_func 100
     [([ins (JIT_OP_OTHER 0) None, ins JIT_OP_BR (Some 1)], True),
      ([ins (JIT_OP_RETURN 0) None], True), ([], False)] [(1, 1)]"

definition branch_cycle_example :: builder where
  "branch_cycle_example = mk_func 100
     [([ins JIT_OP_BR (Some 2)], True),
      ([ins (JIT_OP_OTHER 0) None, ins JIT_OP_BR (Some 2)], True),
      ([ins (JIT_OP_OTHER 0) None, ins JIT_OP_BR (Some 1)], True), ([], False)]
     [(1, 1), (2, 2)]"



section \<open>Specification of the CFG builder\<close>

text \<open>
  \<open>path s p bs q\<close>: walking the \<open>next\<close> links from the pointer \<open>p\<close> visits the blocks
  \<open>bs\<close>, none of them being \<open>q\<close>, and arrives at \<open>q\<close>.
\<close>

primrec path :: "builder \<Rightarrow> nat option \<Rightarrow> nat list \<Rightarrow> nat option \<Rightarrow> bool" where
  "path s p [] q = (p = q)"
| "path s p (b # bs) q = (p = Some b \<and> p \<noteq> q \<and> path s (b_next (blocks s b)) bs q)"

text \<open>
  The opcode \<open>build_edges\<close> classifies a block by, and the blocks whose last
  instruction names a label without a block where the source bails out.
\<close>

definition terminator :: "builder \<Rightarrow> nat \<Rightarrow> opcode" where
  "terminator s b = (case block_get_last (blocks s b) of None \<Rightarrow> JIT_OP_NOP | Some i \<Rightarrow> opcode i)"

definition undefined_target :: "builder \<Rightarrow> nat \<Rightarrow> bool" where
  "undefined_target s b =
     (case block_get_last (blocks s b) of
        None \<Rightarrow> False
      | Some i \<Rightarrow>
          (opcode i = JIT_OP_BR \<or> is_cond_branch_op (opcode i)
             \<or> opcode i = JIT_OP_CALL_FINALLY \<or> opcode i = JIT_OP_CALL_FILTER)
            \<and> block_from_label s (dest i) = None
          \<or> opcode i = JIT_OP_JUMP_TABLE
            \<and> (\<exists>l \<in> set (jt_labels i). block_from_label s l = None))"

text \<open>
  The classification table of section 4.D of the specification, read as the list of
  successor edges (flags and destination) of a block in the order of creation: the
  explicit edges of the terminator, then the fall-through edge to the list successor
  unless \<open>ends_in_dead\<close> is set.
\<close>

definition target_edge :: "edge_flags \<Rightarrow> nat option \<Rightarrow> (edge_flags \<times> nat) list" where
  "target_edge fl d = (case d of None \<Rightarrow> [] | Some x \<Rightarrow> [(fl, x)])"

definition explicit_edges :: "builder \<Rightarrow> nat \<Rightarrow> (edge_flags \<times> nat) list" where
  "explicit_edges s b =
     (case block_get_last (blocks s b) of
        None \<Rightarrow> []
      | Some i \<Rightarrow>
          (case opcode i of
             JIT_OP_RETURN _ \<Rightarrow> target_edge JIT_EDGE_RETURN (exit_block s)
           | JIT_OP_BR \<Rightarrow> target_edge JIT_EDGE_BRANCH (block_from_label s (dest i))
           | JIT_OP_BR_COND _ \<Rightarrow> target_edge JIT_EDGE_BRANCH (block_from_label s (dest i))
           | JIT_OP_THROW \<Rightarrow>
               (case block_from_label s (catcher_label s) of
                  None \<Rightarrow> target_edge JIT_EDGE_EXCEPT (exit_block s)
                | Some d \<Rightarrow> [(JIT_EDGE_EXCEPT, d)])
           | JIT_OP_RETHROW \<Rightarrow>
               (case block_from_label s (catcher_label s) of
                  None \<Rightarrow> target_edge JIT_EDGE_EXCEPT (exit_block s)
                | Some d \<Rightarrow> [(JIT_EDGE_EXCEPT, d)])
           | JIT_OP_CALL_FINALLY \<Rightarrow> target_edge JIT_EDGE_EXCEPT (block_from_label s (dest i))
           | JIT_OP_CALL_FILTER \<Rightarrow> target_edge JIT_EDGE_EXCEPT (block_from_label s (dest i))
           | JIT_OP_CALL _ \<Rightarrow>
               (case block_from_label s (catcher_label s) of
                  None \<Rightarrow> target_edge JIT_EDGE_EXCEPT (exit_block s)
                | Some d \<Rightarrow> [(JIT_EDGE_EXCEPT, d)])
           | JIT_OP_JUMP_TABLE \<Rightarrow>
               concat (map (\<lambda>l. target_edge JIT_EDGE_BRANCH (block_from_label s l)) (jt_labels i))
           | _ \<Rightarrow> []))"

definition out_edges :: "builder \<Rightarrow> nat \<Rightarrow> (edge_flags \<times> nat) list" where
  "out_edges s b =
     explicit_edges s b
       @ (if ends_in_dead (blocks s b) then []
          else target_edge JIT_EDGE_FALLTHRU (b_next (blocks s b)))"

text \<open>
  Creating the edges of a list, of a plan (a list of edges per block) and of its
  flattening, by \<open>create_edge\<close>; \<open>code_eq\<close> relates two states that differ in edges,
  edge arrays, counters and memory only.
\<close>

fun create_edges ::
  "nat \<Rightarrow> (edge_flags \<times> nat) list \<Rightarrow> bool \<Rightarrow> builder \<Rightarrow> error + builder" where
  "create_edges src [] create s = Inr s"
| "create_edges src ((fl, d) # r) create s =
     ebind (create_edge src d fl create s) (create_edges src r create)"

definition code_eq :: "builder \<Rightarrow> builder \<Rightarrow> bool" where
  "code_eq s s' =
     ((\<forall>b. b_insns (blocks s' b) = b_insns (blocks s b)
          \<and> b_next (blocks s' b) = b_next (blocks s b)
          \<and> b_prev (blocks s' b) = b_prev (blocks s b)
          \<and> b_label (blocks s' b) = b_label (blocks s b)
          \<and> visited (blocks s' b) = visited (blocks s b)
          \<and> ends_in_dead (blocks s' b) = ends_in_dead (blocks s b))
      \<and> label_info s' = label_info s \<and> catcher_label s' = catcher_label s
      \<and> entry_block s' = entry_block s \<and> exit_block s' = exit_block s
      \<and> deleted_blocks s' = deleted_blocks s \<and> block_order s' = block_order s)"

fun create_all ::
  "(nat \<times> (edge_flags \<times> nat) list) list \<Rightarrow> bool \<Rightarrow> builder \<Rightarrow> error + builder" where
  "create_all [] create s = Inr s"
| "create_all ((src, es) # r) create s =
     ebind (create_edges src es create s) (create_all r create)"

definition edge_plan :: "builder \<Rightarrow> nat list \<Rightarrow> (nat \<times> (edge_flags \<times> nat) list) list" where
  "edge_plan s bs = map (\<lambda>b. (b, out_edges s b)) bs"

text \<open>The plan as a flat list of edges.\<close>

fun create_flat :: "(nat \<times> edge_flags \<times> nat) list \<Rightarrow> bool \<Rightarrow> builder \<Rightarrow> error + builder" where
  "create_flat [] create s = Inr s"
| "create_flat ((src, fl, d) # r) create s =
     ebind (create_edge src d fl create s) (create_flat r create)"

definition flat :: "(nat \<times> (edge_flags \<times> nat) list) list \<Rightarrow> (nat \<times> edge_flags \<times> nat) list" where
  "flat pl = concat (map (\<lambda>(src, es). map (Pair src) es) pl)"

text \<open>
  The numbers of edges of a flat plan that leave and that enter a block, the state
  after the counting pass, a block after \<open>alloc_edges\<close>, and the addresses the creating
  pass stores in the successor array of a block when it starts at pool address \<open>n\<close>.
\<close>

definition nsucc :: "(nat \<times> edge_flags \<times> nat) list \<Rightarrow> nat \<Rightarrow> nat" where
  "nsucc es b = length (filter (\<lambda>t. fst t = b) es)"

definition npred :: "(nat \<times> edge_flags \<times> nat) list \<Rightarrow> nat \<Rightarrow> nat" where
  "npred es b = length (filter (\<lambda>t. snd (snd t) = b) es)"

definition counted_state :: "(nat \<times> edge_flags \<times> nat) list \<Rightarrow> builder \<Rightarrow> builder" where
  "counted_state es s =
     s\<lparr>blocks := \<lambda>b. (blocks s b)\<lparr>num_succs := num_succs (blocks s b) + nsucc es b,
                                   num_preds := num_preds (blocks s b) + npred es b\<rparr>\<rparr>"

definition allocd :: "jit_block \<Rightarrow> jit_block" where
  "allocd bl = bl\<lparr>b_succs := replicate (num_succs bl) 0, num_succs := 0,
                 b_preds := replicate (num_preds bl) 0, num_preds := 0\<rparr>"

fun new_succs :: "(nat \<times> edge_flags \<times> nat) list \<Rightarrow> nat \<Rightarrow> nat \<Rightarrow> nat list" where
  "new_succs [] b n = []"
| "new_succs ((src, fl, d) # r) b n = (if src = b then [n] else []) @ new_succs r b (Suc n)"

definition edge_of :: "nat \<times> edge_flags \<times> nat \<Rightarrow> jit_edge" where
  "edge_of t = \<lparr>e_src = fst t, e_dst = snd (snd t), e_flags = fst (snd t)\<rparr>"

text \<open>
  A function as the front end hands it to \<open>build_cfg\<close>: the live list runs from the
  entry block over \<open>bs\<close> to the exit block \<open>x\<close> and on over \<open>rest\<close> to null without
  repetition, all edge counters are 0, every edge to create ends in the list, no
  terminator names an unbound label, and memory suffices for two arrays per block
  and the edges.
\<close>

definition fresh_function :: "builder \<Rightarrow> nat list \<Rightarrow> nat \<Rightarrow> nat list \<Rightarrow> bool" where
  "fresh_function s bs x rest =
     (exit_block s = Some x \<and> path s (entry_block s) bs (Some x)
      \<and> path s (Some x) (x # rest) None \<and> distinct (bs @ x # rest)
      \<and> (\<forall>b. num_succs (blocks s b) = 0 \<and> num_preds (blocks s b) = 0)
      \<and> (\<forall>b \<in> set bs. \<forall>e \<in> set (out_edges s b). snd e \<in> set (bs @ x # rest))
      \<and> (\<forall>b \<in> set bs. \<not> undefined_target s b)
      \<and> 2 * length (bs @ x # rest) + sum_list (map (\<lambda>b. length (out_edges s b)) bs) \<le> mem s)"

text \<open>A block ending in \<open>THROW\<close> without catcher, and a branch to the unbound label 5.\<close>

definition throw_example :: builder where
  "throw_example = mk_func 100
     [([], False), ([ins JIT_OP_THROW None], True), ([], False)] []"

definition undefined_label_example :: builder where
  "undefined_label_example = mk_func 100
     [([], False), ([ins JIT_OP_BR (Some 5)], True), ([], False)] []"

section \<open>Dead-end consistency\<close>

text \<open>
  The counted slots of the successor array of a block; dead-end consistency (no
  \<open>FALLTHRU\<close> edge among them when \<open>ends_in_dead\<close> is set); the half of edge symmetry the
  cleaner relies on (an edge in the successor array of a block has that block as its
  source); and the relation between a state and a later one in which successor arrays
  have only lost edges while sources, flags and \<open>ends_in_dead\<close> are as before.
\<close>

definition succs_of :: "builder \<Rightarrow> nat \<Rightarrow> nat list" where
  "succs_of s b = take (num_succs (blocks s b)) (b_succs (blocks s b))"

definition dead_end_consistent :: "builder \<Rightarrow> bool" where
  "dead_end_consistent s =
     (\<forall>b. ends_in_dead (blocks s b) \<longrightarrow>
          (\<forall>e \<in> set (succs_of s b). e_flags (edges s e) \<noteq> JIT_EDGE_FALLTHRU))"

definition succs_owned :: "builder \<Rightarrow> bool" where
  "succs_owned s = (\<forall>b. \<forall>e \<in> set (succs_of s b). e_src (edges s e) = b)"

definition shrinks :: "builder \<Rightarrow> builder \<Rightarrow> bool" where
  "shrinks s s' =
     ((\<forall>b. set (succs_of s' b) \<subseteq> set (succs_of s b))
      \<and> (\<forall>e. e_src (edges s' e) = e_src (edges s e) \<and> e_flags (edges s' e) = e_flags (edges s e))
      \<and> (\<forall>b. ends_in_dead (blocks s' b) = ends_in_dead (blocks s b)))"

definition dead_end_inv :: "builder \<Rightarrow> bool" where
  "dead_end_inv s = (dead_end_consistent s \<and> succs_owned s)"

section \<open>Reachability and the depth-first traversal\<close>

text \<open>
  The successor relation of the control-flow graph, as \<open>compute_postorder\<close> reads it:
  the destination of the \<open>j\<close>-th successor edge of a block, for \<open>j\<close> below \<open>num_succs\<close>;
  and the blocks that a block reaches along it.
\<close>

definition dst_at :: "builder \<Rightarrow> nat \<Rightarrow> nat \<Rightarrow> nat" where
  "dst_at s b j = e_dst (edges s (b_succs (blocks s b) ! j))"

definition cfg_succ :: "builder \<Rightarrow> (nat \<times> nat) set" where
  "cfg_succ s = {(b, c). \<exists>j < num_succs (blocks s b). c = dst_at s b j}"

definition reachable_from :: "builder \<Rightarrow> nat \<Rightarrow> nat set" where
  "reachable_from s entry = (cfg_succ s)\<^sup>* `` {entry}"

text \<open>
  Two states with the same successor arrays, counters and edges: the traversal changes
  the \<open>visited\<close> flags only.
\<close>

definition graph_eq :: "builder \<Rightarrow> builder \<Rightarrow> bool" where
  "graph_eq s s' =
     ((\<forall>b. b_succs (blocks s' b) = b_succs (blocks s b)
          \<and> num_succs (blocks s' b) = num_succs (blocks s b))
      \<and> edges s' = edges s)"

text \<open>
  The successor counter of every block of \<open>R\<close> lies within its array, and the
  successor edges of \<open>R\<close> lead into \<open>R\<close>.
\<close>

definition graph_ok :: "nat set \<Rightarrow> builder \<Rightarrow> bool" where
  "graph_ok R s =
     ((\<forall>b \<in> R. num_succs (blocks s b) \<le> length (b_succs (blocks s b)))
      \<and> (\<forall>b \<in> R. \<forall>j < num_succs (blocks s b). dst_at s b j \<in> R))"

text \<open>
  The invariant of the do-while loop of \<open>_jit_block_compute_postorder\<close>: the stack and
  the emitted blocks are the visited blocks, each once; the successors of a frame below
  its index and all successors of an emitted block are visited; the bottom frame, and
  then the last emitted block, is the entry block.
\<close>

definition dfs_inv :: "nat set \<Rightarrow> nat \<Rightarrow> (nat \<times> nat) list \<Rightarrow> nat list \<Rightarrow> builder \<Rightarrow> bool" where
  "dfs_inv R entry stack out s =
     (distinct (map fst stack @ out)
      \<and> {b. visited (blocks s b)} = set (map fst stack) \<union> set out
      \<and> set (map fst stack) \<union> set out \<subseteq> R
      \<and> (\<forall>(b, i) \<in> set stack. i \<le> num_succs (blocks s b)
            \<and> (\<forall>j < i. visited (blocks s (dst_at s b j))))
      \<and> (\<forall>b \<in> set out. \<forall>j < num_succs (blocks s b). visited (blocks s (dst_at s b j)))
      \<and> (if stack = [] then out \<noteq> [] \<and> last out = entry else fst (last stack) = entry))"

text \<open>
  The number of loop iterations still possible: one per remaining successor and one for
  the pop of each frame, the same and one push for each unvisited block of \<open>R\<close>.
\<close>

definition dfs_measure :: "nat set \<Rightarrow> (nat \<times> nat) list \<Rightarrow> builder \<Rightarrow> nat" where
  "dfs_measure R stack s =
     sum_list (map (\<lambda>(b, i). num_succs (blocks s b) - i + 1) stack)
     + (\<Sum>b \<in> {b \<in> R. \<not> visited (blocks s b)}. num_succs (blocks s b) + 2)"

text \<open>
  The state at the label \<open>loop\<close> of \<open>_jit_block_clean_cfg\<close>: after \<open>compute_postorder\<close>
  and \<open>eliminate_unreachable\<close>.
\<close>

definition after_phase1 :: "builder \<Rightarrow> builder" where
  "after_phase1 s =
     (case compute_postorder s of
        Some (Inr (ok, s1)) \<Rightarrow> (case eliminate_unreachable s1 of Some (Inr s2) \<Rightarrow> s2 | _ \<Rightarrow> s)
      | _ \<Rightarrow> s)"

section \<open>Normal form of the cleaner\<close>



text \<open>
  A trampoline: a block that \<open>merge_empty\<close> keeps, because its counted predecessor edges
  are fall-through edges, at least one, and its first successor edge is not.
\<close>

definition all_fallthru :: "builder \<Rightarrow> nat \<Rightarrow> bool" where
  "all_fallthru s b =
     list_all (\<lambda>e. e_flags (edges s e) = JIT_EDGE_FALLTHRU)
       (take (num_preds (blocks s b)) (b_preds (blocks s b)))"




section \<open>Evaluation rules\<close>

lemmas build_defs = mk_func_def ins_def zero_builder_def zero_block_def zero_edge_def
  upd_block_def upd_edge_def bind_label_def zero_info_def max_label_info_def
  block_from_label_def ebind_def obind_def create_edge_def block_get_last_def
  is_return_op_def is_cond_branch_op_def is_call_op_def classify_def build_block_edges_def
  build_edges_def alloc_block_edges_def alloc_edges_def build_cfg_def
  build_edges_from.simps alloc_edges_from.simps Let_def

lemmas clean_defs = detach_edge_src_def detach_edge_dst_def attach_edge_dst_def
  pool_dealloc_def delete_edge_def delete_block_def block_detach_def is_empty_opcode_def
  is_empty_block_def merge_preds.simps merge_empty_tail_def merge_empty_def
  merge_labels.simps counted_def eliminate_block_def eliminate_unreachable_from.simps
  eliminate_unreachable_def clear_visited_from.simps clear_visited_def
  count_blocks_from.simps count_blocks_def free_order_def postorder_loop.simps
  compute_postorder_def set_last_opcode_def clean_branch_def clean_block_def interior_def
  clean_loop.simps clean_cfg_def destroy_from.simps block_free_def

section \<open>The label-info array grows by doubling\<close>

lemma step_pow2:
  assumes "num = 0 \<or> (\<exists>k. num = (2::nat) ^ k)"
  shows "(num * 2) mod 2 ^ w = 0 \<or> (\<exists>k. (num * 2) mod 2 ^ w = 2 ^ k)"
proof -
  from assms consider "num = 0" | k where "num = 2 ^ k" by blast
  then show ?thesis
  proof cases
    case 1 then show ?thesis by simp
  next
    case 2
    have n2: "num * 2 = 2 ^ Suc k" using 2 by simp
    show ?thesis
    proof (cases "Suc k < w")
      case True
      then have "(2::nat) ^ Suc k < 2 ^ w" by (intro power_strict_increasing) simp_all
      then have "(2 ^ Suc k) mod 2 ^ w = (2::nat) ^ Suc k" by (rule mod_less)
      then show ?thesis unfolding n2 by blast
    next
      case False
      then have "w \<le> Suc k" by simp
      then have "(2::nat) ^ w dvd 2 ^ Suc k" by (rule le_imp_power_dvd)
      then have "(2 ^ Suc k) mod 2 ^ w = (0::nat)" by (rule dvd_imp_mod_0)
      then show ?thesis unfolding n2 by blast
    qed
  qed
qed

lemma grow_num_result:
  assumes "grow_num w num label = Some y"
  shows "label < y \<and> (num = 0 \<or> (\<exists>k. num = 2 ^ k) \<longrightarrow> (\<exists>k. y = 2 ^ k))
         \<and> (num < 2 ^ w \<longrightarrow> y < 2 ^ w)"
proof (rule grow_num.raw_induct[OF _ assms], goal_cases)
  case (1 grow w num label y)
  show ?case
  proof (cases "num \<le> label")
    case False
    with 1(2) have "y = num" by simp
    with False show ?thesis by auto
  next
    case True
    with 1(2) have r: "grow w ((num * 2) mod 2 ^ w) label = Some y" by simp
    note ih = 1(1)[OF r]
    have lt: "(num * 2) mod 2 ^ w < 2 ^ w" by simp
    from ih have a: "label < y" by blast
    from ih lt have c: "y < 2 ^ w" by blast
    have b: "\<exists>k. y = 2 ^ k" if "num = 0 \<or> (\<exists>k. num = 2 ^ k)"
    proof -
      from step_pow2[OF that] have "(num * 2) mod 2 ^ w = 0 \<or> (\<exists>k. (num * 2) mod 2 ^ w = 2 ^ k)" .
      with ih show ?thesis by blast
    qed
    from a b c show ?thesis by blast
  qed
qed

lemma grow_num_overflow: "grow_num 64 64 (2 ^ 63) = None"
proof (cases "grow_num 64 64 (2 ^ 63)")
  case None then show ?thesis .
next
  case (Some y)
  have p: "\<exists>k. (64::nat) = 2 ^ k" by (rule exI[of _ 6]) simp
  note r = grow_num_result[OF Some]
  from r have lo: "(2::nat) ^ 63 < y" by blast
  from r have hi: "y < 2 ^ 64" by simp
  from r p obtain k where k: "y = 2 ^ k" by blast
  from lo k have "(2::nat) ^ 63 < 2 ^ k" by blast
  then have "63 < k" by (rule power_less_imp_less_exp[rotated]) simp
  moreover from hi k have "(2::nat) ^ k < 2 ^ 64" by blast
  then have "k < 64" by (rule power_less_imp_less_exp[rotated]) simp
  ultimately show ?thesis by simp
qed

lemma grow_num_pow2:
  "k < w \<Longrightarrow> label < 2 ^ (w - 1) \<Longrightarrow>
   \<exists>m. grow_num w (2 ^ k) label = Some (2 ^ m) \<and> k \<le> m \<and> label < 2 ^ m \<and>
       (m = k \<or> 2 ^ (m - 1) \<le> label)"
proof (induction "w - k" arbitrary: k)
  case 0
  then show ?case by simp
next
  case (Suc d)
  show ?case
  proof (cases "(2::nat) ^ k \<le> label")
    case False
    then have "grow_num w (2 ^ k) label = Some (2 ^ k)" by (subst grow_num.simps) simp
    with False show ?thesis by (intro exI[of _ k]) simp
  next
    case True
    have "(2::nat) ^ k < 2 ^ (w - 1)" by (rule le_less_trans[OF True Suc.prems(2)])
    then have "k < w - 1" by (rule power_less_imp_less_exp[rotated]) simp
    then have sk: "Suc k < w" by simp
    then have "(2::nat) ^ Suc k < 2 ^ w" by (intro power_strict_increasing) simp_all
    then have m: "((2::nat) ^ k * 2) mod 2 ^ w = 2 ^ Suc k" by (simp add: mult.commute)
    from Suc.hyps(2) sk have "d = w - Suc k" by simp
    from Suc.hyps(1)[OF this sk Suc.prems(2)] obtain m where
      r: "grow_num w (2 ^ Suc k) label = Some (2 ^ m)" and km: "Suc k \<le> m"
      and lm: "label < 2 ^ m" and mn: "m = Suc k \<or> 2 ^ (m - 1) \<le> label" by blast
    have "grow_num w (2 ^ k) label = Some (2 ^ m)"
      by (subst grow_num.simps) (simp only: True if_True m r)
    moreover have "2 ^ (m - 1) \<le> label" using mn True by auto
    ultimately show ?thesis using km lm by (intro exI[of _ m]) simp
  qed
qed

lemma bind_label_info:
  "label < length (label_info s) \<Longrightarrow>
   label_info (bind_label block label s) ! i =
     (if i = label then \<lparr>li_block = Some block, li_alias = b_label (blocks s block)\<rparr>
      else label_info s ! i)"
  by (simp add: bind_label_def upd_block_def)

lemma bind_label_length: "length (label_info (bind_label block label s)) = length (label_info s)"
  by (simp add: bind_label_def upd_block_def)

lemma bind_label_block: "b_label (blocks (bind_label block label s) block) = Some label"
  by (simp add: bind_label_def upd_block_def)

lemma grow_num_bound:
  "(2::nat) ^ n \<le> max 64 (2 * label)" if "6 \<le> k" "k \<le> n" "k = 6 \<or> 2 ^ k \<le> label"
    "n = k \<or> 2 ^ (n - 1) \<le> label" for n k label :: nat
proof (cases "n = k")
  case True
  with that(3) show ?thesis by auto
next
  case False
  with that have "2 ^ (n - 1) \<le> label" "0 < n" by auto
  then have "(2::nat) ^ n = 2 * 2 ^ (n - 1)" by (cases n) simp_all
  with \<open>2 ^ (n - 1) \<le> label\<close> show ?thesis by simp
qed

text \<open>
  C9, as amended.  On an unsigned label type of \<open>w\<close> bits with entries of \<open>sz > 0\<close>
  bytes, for a label that is not below \<open>max_label_info\<close> and for which the byte size
  of \<open>max 64 (2 * label)\<close> entries is below \<open>2 ^ w\<close>, when the array size is 0 or a
  power of two from 64 on (as every size the function itself sets is) and the
  reallocation succeeds, \<open>record_label\<close> returns 1, the new size is the least power of
  two that is at least \<open>max 64 (label + 1)\<close>, the old entries are kept, the new entries
  other than that of the label are zero, and the label is bound to the block in front
  of the block's former chain.
\<close>

theorem record_label_grows:
  assumes sz: "0 < sz" and fit: "max 64 (2 * label) * sz < 2 ^ w"
    and ge: "max_label_info s \<le> label"
    and pw: "max_label_info s = 0 \<or> (\<exists>k\<ge>6. max_label_info s = 2 ^ k)"
    and mem: "0 < mem s"
  shows "\<exists>s' n. record_label w sz block label s = Some (Inr (True, s'))
           \<and> max_label_info s' = 2 ^ n \<and> max 64 (label + 1) \<le> 2 ^ n
           \<and> (\<forall>j. max 64 (label + 1) \<le> 2 ^ j \<longrightarrow> n \<le> j)
           \<and> (\<forall>i < max_label_info s. label_info s' ! i = label_info s ! i)
           \<and> (\<forall>i. max_label_info s \<le> i \<and> i < 2 ^ n \<and> i \<noteq> label \<longrightarrow> label_info s' ! i = zero_info)
           \<and> label_info s' ! label = \<lparr>li_block = Some block, li_alias = b_label (blocks s block)\<rparr>
           \<and> b_label (blocks s' block) = Some label
           \<and> block_from_label s' (Some label) = Some block"
proof -
  have "max 64 (2 * label) * 1 \<le> max 64 (2 * label) * sz"
    using sz by (intro mult_le_mono2) simp
  then have m1: "max 64 (2 * label) \<le> max 64 (2 * label) * sz" by (simp only: mult_1_right)
  then have m2: "max 64 (2 * label) < 2 ^ w" using fit by (rule le_less_trans)
  have w: "6 < w"
  proof -
    from m2 have "(2::nat) ^ 6 < 2 ^ w" by simp
    then show ?thesis by (rule power_less_imp_less_exp[rotated]) simp
  qed
  have lab: "label < 2 ^ (w - 1)"
  proof -
    from m2 have "2 * label < 2 ^ w" by simp
    also have "(2::nat) ^ w = 2 * 2 ^ (w - 1)" using w by (cases w) simp_all
    finally show ?thesis by simp
  qed
  define start where "start = (if max_label_info s < 64 then 64 else max_label_info s)"
  obtain k where k: "start = 2 ^ k" and k6: "6 \<le> k" and kl: "k = 6 \<or> 2 ^ k \<le> label"
  proof (cases "max_label_info s = 0")
    case True
    then have "start = 2 ^ 6" by (simp add: start_def)
    then show ?thesis using that by blast
  next
    case False
    with pw obtain k where kk: "6 \<le> k" "max_label_info s = 2 ^ k" by blast
    then have "(2::nat) ^ 6 \<le> 2 ^ k" by (intro power_increasing) simp_all
    then have "start = 2 ^ k" using kk by (simp add: start_def)
    then show ?thesis using that kk ge by auto
  qed
  have kw: "k < w"
  proof (cases "k = 6")
    case True then show ?thesis using w by simp
  next
    case False
    with kl have "(2::nat) ^ k \<le> label" by blast
    then have "(2::nat) ^ k < 2 ^ (w - 1)" using lab by (rule le_less_trans)
    then have "k < w - 1" by (rule power_less_imp_less_exp[rotated]) simp
    then show ?thesis by simp
  qed
  from grow_num_pow2[OF kw lab] obtain n where
    g: "grow_num w (2 ^ k) label = Some (2 ^ n)" and kn: "k \<le> n" and ln: "label < 2 ^ n"
    and mn: "n = k \<or> 2 ^ (n - 1) \<le> label" by blast
  have nb: "(2::nat) ^ n \<le> max 64 (2 * label)" using k6 kn kl mn by (rule grow_num_bound)
  then have "2 ^ n * sz \<le> max 64 (2 * label) * sz" by (rule mult_le_mono1)
  then have nofl: "2 ^ n * sz < 2 ^ w" using fit by (rule le_less_trans)
  then have bytes: "(2 ^ n * sz) mod 2 ^ w = 2 ^ n * sz" by simp
  have bdiv: "(2 ^ n * sz) div sz = 2 ^ n" using sz by simp
  have bpos: "2 ^ n * sz \<noteq> 0" using sz by simp
  define s1 where "s1 = s\<lparr>label_info := label_info s @ replicate (2 ^ n - max_label_info s) zero_info,
                       mem := mem s - 1\<rparr>"
  define s' where "s' = bind_label block label s1"
  have rl: "record_label w sz block label s = Some (Inr (True, s'))"
    unfolding record_label_def start_def[symmetric] k g Let_def option.case bytes bdiv
    using ge mem bpos by (simp add: s'_def s1_def)
  have mle: "max_label_info s \<le> 2 ^ n" using ge ln by simp
  have len1: "length (label_info s1) = 2 ^ n" using mle by (simp add: s1_def max_label_info_def)
  have len: "max_label_info s' = 2 ^ n" by (simp add: s'_def max_label_info_def bind_label_length len1)
  have ll: "label < length (label_info s1)" using ln len1 by simp
  have b64: "(64::nat) \<le> 2 ^ n"
  proof -
    have "(2::nat) ^ 6 \<le> 2 ^ n" using k6 kn by (intro power_increasing) simp_all
    then show ?thesis by simp
  qed
  have least: "n \<le> j" if "max 64 (label + 1) \<le> 2 ^ j" for j
  proof (cases "2 ^ (n - 1) \<le> label \<and> 0 < n")
    case True
    from that have "label < 2 ^ j" by simp
    with True have "(2::nat) ^ (n - 1) < 2 ^ j" by (intro le_less_trans[of "2 ^ (n - 1)" label]) blast+
    then have "n - 1 < j" by (rule power_less_imp_less_exp[rotated]) simp
    with True show ?thesis by simp
  next
    case False
    from k6 kn have "0 < n" by simp
    with False have nl: "\<not> 2 ^ (n - 1) \<le> label" by blast
    with mn have nk: "n = k" by blast
    have pn: "(2::nat) ^ (n - 1) \<le> 2 ^ n" by (intro power_increasing) simp_all
    have "\<not> 2 ^ n \<le> label"
    proof
      assume "2 ^ n \<le> label"
      with pn have "2 ^ (n - 1) \<le> label" by (rule le_trans)
      with nl show False by blast
    qed
    with kl nk have "n = 6" by blast
    moreover from that have "(2::nat) ^ 6 \<le> 2 ^ j" by simp
    then have "6 \<le> j" by (rule power_le_imp_le_exp[rotated]) simp
    ultimately show ?thesis by simp
  qed
  have old: "label_info s' ! i = label_info s ! i" if "i < max_label_info s" for i
    using that ge ll by (simp add: s'_def bind_label_info) (simp add: s1_def max_label_info_def nth_append)
  have new: "label_info s' ! i = zero_info" if "max_label_info s \<le> i \<and> i < 2 ^ n \<and> i \<noteq> label" for i
  proof -
    from that have "i - length (label_info s) < 2 ^ n - length (label_info s)"
      by (simp add: max_label_info_def) arith
    then have "replicate (2 ^ n - length (label_info s)) zero_info ! (i - length (label_info s)) = zero_info"
      by (rule nth_replicate)
    then show ?thesis
      using that ll by (simp add: s'_def bind_label_info) (simp add: s1_def max_label_info_def nth_append)
  qed
  have at: "label_info s' ! label = \<lparr>li_block = Some block, li_alias = b_label (blocks s block)\<rparr>"
    using ll by (simp add: s'_def bind_label_info) (simp add: s1_def)
  have bl: "b_label (blocks s' block) = Some label" by (simp add: s'_def bind_label_block)
  have fl: "block_from_label s' (Some label) = Some block"
    using ln len at by (simp add: block_from_label_def)
  show ?thesis using rl len b64 ln least old new at bl fl by (intro exI[of _ s'] exI[of _ n]) simp
qed

theorem record_label_grows_witness:
  "(0::nat) < 16 \<and> max 64 (2 * 70) * 16 < (2::nat) ^ 64
   \<and> max_label_info (zero_builder 1) \<le> 70 \<and> max_label_info (zero_builder 1) = 0
   \<and> 0 < mem (zero_builder 1)
   \<and> (\<exists>s'. record_label 64 16 0 70 (zero_builder 1) = Some (Inr (True, s'))
        \<and> max_label_info s' = 128
        \<and> label_info s' ! 69 = zero_info
        \<and> block_from_label s' (Some 70) = Some 0)"
proof -
  have h: "(0::nat) < 16" "max 64 (2 * 70) * 16 < (2::nat) ^ 64"
    "max_label_info (zero_builder 1) \<le> 70" "max_label_info (zero_builder 1) = 0"
    "0 < mem (zero_builder 1)"
    by (simp_all add: max_label_info_def zero_builder_def)
  have "\<exists>s' n. record_label 64 16 0 70 (zero_builder 1) = Some (Inr (True, s'))
           \<and> max_label_info s' = 2 ^ n \<and> max 64 (70 + 1) \<le> (2::nat) ^ n
           \<and> (\<forall>j. max 64 (70 + 1) \<le> (2::nat) ^ j \<longrightarrow> n \<le> j)
           \<and> (\<forall>i < max_label_info (zero_builder 1).
                 label_info s' ! i = label_info (zero_builder 1) ! i)
           \<and> (\<forall>i. max_label_info (zero_builder 1) \<le> i \<and> i < 2 ^ n \<and> i \<noteq> 70
                 \<longrightarrow> label_info s' ! i = zero_info)
           \<and> label_info s' ! 70
                 = \<lparr>li_block = Some 0, li_alias = b_label (blocks (zero_builder 1) 0)\<rparr>
           \<and> b_label (blocks s' 0) = Some 70
           \<and> block_from_label s' (Some 70) = Some 0"
    using h by (intro record_label_grows) simp_all
  then obtain s' n where r: "record_label 64 16 0 70 (zero_builder 1) = Some (Inr (True, s'))"
    and sz: "max_label_info s' = 2 ^ n" and lo: "max 64 (70 + 1) \<le> (2::nat) ^ n"
    and least: "\<forall>j. max 64 (70 + 1) \<le> (2::nat) ^ j \<longrightarrow> n \<le> j"
    and new: "\<forall>i. max_label_info (zero_builder 1) \<le> i \<and> i < 2 ^ n \<and> i \<noteq> 70
                 \<longrightarrow> label_info s' ! i = zero_info"
    and fl: "block_from_label s' (Some 70) = Some 0"
    by blast
  from least have "n \<le> 7" by simp
  moreover have "6 < n"
  proof -
    from lo have "(2::nat) ^ 6 < 2 ^ n" by simp
    then show ?thesis by (rule power_less_imp_less_exp[rotated]) simp
  qed
  ultimately have n: "n = 7" by simp
  from new n have "label_info s' ! 69 = zero_info"
    by (simp add: max_label_info_def zero_builder_def)
  with r sz n fl have "\<exists>s'. record_label 64 16 0 70 (zero_builder 1) = Some (Inr (True, s'))
        \<and> max_label_info s' = 128
        \<and> label_info s' ! 69 = zero_info
        \<and> block_from_label s' (Some 70) = Some 0" by simp
  with h show ?thesis by (intro conjI)
qed

lemma grow_num_2_59: "grow_num 64 64 (2 ^ 59) = Some (2 ^ 60)"
proof -
  have "(6::nat) < 64" "(2::nat) ^ 59 < 2 ^ (64 - 1)" by simp_all
  from grow_num_pow2[OF this] obtain n where
    g: "grow_num 64 (2 ^ 6) (2 ^ 59) = Some (2 ^ n)" and ln: "(2::nat) ^ 59 < 2 ^ n"
    and mn: "n = 6 \<or> (2::nat) ^ (n - 1) \<le> 2 ^ 59" by blast
  from ln have "59 < n" by (rule power_less_imp_less_exp[rotated]) simp
  moreover from this mn have "(2::nat) ^ (n - 1) \<le> 2 ^ 59" by auto
  then have "n - 1 \<le> 59" by (rule power_le_imp_le_exp[rotated]) simp
  ultimately have "n = 60" by simp
  with g show ?thesis by simp
qed

text \<open>
  C9 as stated fails for large labels.  With 64-bit labels and entries of 16 bytes, for
  the label \<open>2 ^ 63\<close> the doubling wraps to 0 and the loop never ends, so \<open>record_label\<close>
  does not return; for the label \<open>2 ^ 59\<close> the new size is \<open>2 ^ 60\<close> entries, their byte
  size wraps to 0, and the write of the entry leaves the block.
\<close>

theorem record_label_overflow:
  "record_label 64 16 0 (2 ^ 63) (zero_builder 1) = None
   \<and> record_label 64 16 0 (2 ^ 59) (zero_builder 1) = Some (Inl MEMORY_FAULT)"
proof
  show "record_label 64 16 0 (2 ^ 63) (zero_builder 1) = None"
    using grow_num_overflow by (simp add: record_label_def max_label_info_def zero_builder_def)
  have "((2::nat) ^ 60 * 16) mod 2 ^ 64 = 0" by simp
  then show "record_label 64 16 0 (2 ^ 59) (zero_builder 1) = Some (Inl MEMORY_FAULT)"
    using grow_num_2_59
    by (simp add: record_label_def max_label_info_def zero_builder_def Let_def)
qed

section \<open>Deleted blocks\<close>

lemma delete_block_deleted_blocks: "deleted_blocks (delete_block block s) = deleted_blocks s"
  by (simp add: delete_block_def upd_block_def Let_def)

text \<open>
  C2 on scenario S2.  After \<open>build_cfg\<close> and \<open>clean_cfg\<close> the blocks 1 and 2 have left the
  live list, which is \<open>0, 3, 4\<close>; the deleted list is empty, and \<open>_jit_block_free\<close>
  releases the blocks 0, 3 and 4 only.
\<close>

theorem deleted_blocks_not_released:
  "(case obind (build_cfg scenario_S2) clean_cfg of
      Some (Inr s) \<Rightarrow>
        deleted_blocks s = None \<and> map_option destroyed (block_free s) = Some [0, 3, 4]
    | _ \<Rightarrow> False)"
  by (simp add: scenario_S2_def build_defs clean_defs)

section \<open>Label soundness under record and merge\<close>

lemma alias_chain_lt: "alias_chain s h ls \<Longrightarrow> l \<in> set ls \<Longrightarrow> l < max_label_info s"
  by (induction ls arbitrary: h) auto

lemma alias_chain_mono:
  "alias_chain s h ls \<Longrightarrow> max_label_info s \<le> max_label_info s' \<Longrightarrow>
   (\<forall>l \<in> set ls. label_info s' ! l = label_info s ! l) \<Longrightarrow> alias_chain s' h ls"
  by (induction ls arbitrary: h) auto

lemma bind_label_max: "max_label_info (bind_label block label s) = max_label_info s"
  by (simp add: bind_label_def upd_block_def max_label_info_def)

lemma bind_label_at:
  "label < max_label_info s \<Longrightarrow>
   label_info (bind_label block label s) ! label
     = \<lparr>li_block = Some block, li_alias = b_label (blocks s block)\<rparr>"
  by (simp add: bind_label_def upd_block_def max_label_info_def)

lemma bind_label_other:
  "i \<noteq> label \<Longrightarrow> label_info (bind_label block label s) ! i = label_info s ! i"
  by (simp add: bind_label_def upd_block_def)

lemma bind_label_b_label:
  "b_label (blocks (bind_label block label s) B)
     = (if B = block then Some label else b_label (blocks s B))"
  by (simp add: bind_label_def upd_block_def)

lemma bind_label_blocks_other:
  "B \<noteq> block \<Longrightarrow> blocks (bind_label block label s) B = blocks s B"
  by (simp add: bind_label_def upd_block_def)

lemma bind_label_ok_other:
  assumes ok: "block_labels_ok s B" and ne: "B \<noteq> block"
    and lt: "label < max_label_info s"
    and nb: "li_block (label_info s ! label) \<noteq> Some B"
  shows "block_labels_ok (bind_label block label s) B"
proof -
  let ?s' = "bind_label block label s"
  from ok obtain ls where c: "alias_chain s (b_label (blocks s B)) ls" and d: "distinct ls"
    and a: "\<forall>l \<in> set ls. li_block (label_info s ! l) = Some B"
    and b: "\<forall>l < max_label_info s. li_block (label_info s ! l) = Some B \<longrightarrow> l \<in> set ls"
    unfolding block_labels_ok_def by blast
  from a nb have nin: "label \<notin> set ls" by blast
  have same: "\<forall>l \<in> set ls. label_info ?s' ! l = label_info s ! l"
  proof
    fix l assume "l \<in> set ls"
    with nin have "l \<noteq> label" by blast
    then show "label_info ?s' ! l = label_info s ! l" by (rule bind_label_other)
  qed
  have c': "alias_chain ?s' (b_label (blocks ?s' B)) ls"
    using alias_chain_mono[OF c _ same] ne by (simp add: bind_label_max bind_label_b_label)
  have a': "\<forall>l \<in> set ls. li_block (label_info ?s' ! l) = Some B" using a same by simp
  have b': "\<forall>l < max_label_info ?s'. li_block (label_info ?s' ! l) = Some B \<longrightarrow> l \<in> set ls"
  proof (intro allI impI)
    fix l assume l: "l < max_label_info ?s'" and bl: "li_block (label_info ?s' ! l) = Some B"
    show "l \<in> set ls"
    proof (cases "l = label")
      case True
      with bl lt ne show ?thesis by (simp add: bind_label_at)
    next
      case False
      with bl l b show ?thesis by (simp add: bind_label_other bind_label_max)
    qed
  qed
  from c' d a' b' show ?thesis unfolding block_labels_ok_def by blast
qed

lemma bind_label_ok_self:
  assumes ok: "block_labels_ok s block" and lt: "label < max_label_info s"
    and nb: "li_block (label_info s ! label) \<noteq> Some block"
  shows "block_labels_ok (bind_label block label s) block"
proof -
  let ?s' = "bind_label block label s"
  from ok obtain ls where c: "alias_chain s (b_label (blocks s block)) ls" and d: "distinct ls"
    and a: "\<forall>l \<in> set ls. li_block (label_info s ! l) = Some block"
    and b: "\<forall>l < max_label_info s. li_block (label_info s ! l) = Some block \<longrightarrow> l \<in> set ls"
    unfolding block_labels_ok_def by blast
  from a nb have nin: "label \<notin> set ls" by blast
  have same: "\<forall>l \<in> set ls. label_info ?s' ! l = label_info s ! l"
  proof
    fix l assume "l \<in> set ls"
    with nin have "l \<noteq> label" by blast
    then show "label_info ?s' ! l = label_info s ! l" by (rule bind_label_other)
  qed
  have "alias_chain ?s' (b_label (blocks s block)) ls"
    using alias_chain_mono[OF c _ same] by (simp add: bind_label_max)
  then have c': "alias_chain ?s' (b_label (blocks ?s' block)) (label # ls)"
    using lt by (simp add: bind_label_max bind_label_b_label bind_label_at)
  have d': "distinct (label # ls)" using d nin by simp
  have a': "\<forall>l \<in> set (label # ls). li_block (label_info ?s' ! l) = Some block"
    using a same lt by (simp add: bind_label_at)
  have b': "\<forall>l < max_label_info ?s'. li_block (label_info ?s' ! l) = Some block
              \<longrightarrow> l \<in> set (label # ls)"
  proof (intro allI impI)
    fix l assume l: "l < max_label_info ?s'" and bl: "li_block (label_info ?s' ! l) = Some block"
    show "l \<in> set (label # ls)"
    proof (cases "l = label")
      case True then show ?thesis by simp
    next
      case False
      with bl l b show ?thesis by (simp add: bind_label_other bind_label_max)
    qed
  qed
  from c' d' a' b' show ?thesis unfolding block_labels_ok_def by blast
qed

lemma bind_label_sound:
  assumes "label_sound s" "label < max_label_info s" "li_block (label_info s ! label) = None"
  shows "label_sound (bind_label block label s)"
  unfolding label_sound_def
proof
  fix B
  from assms(1) have ok: "block_labels_ok s B" by (simp add: label_sound_def)
  show "block_labels_ok (bind_label block label s) B"
  proof (cases "B = block")
    case True
    with ok assms(2,3) show ?thesis by (simp add: bind_label_ok_self)
  next
    case False
    with ok assms(2,3) show ?thesis by (simp add: bind_label_ok_other)
  qed
qed

lemma grow_sound:
  assumes "label_sound s"
  shows "label_sound (s\<lparr>label_info := label_info s @ replicate k zero_info, mem := m\<rparr>)"
  unfolding label_sound_def
proof
  fix B
  let ?s' = "s\<lparr>label_info := label_info s @ replicate k zero_info, mem := m\<rparr>"
  from assms obtain ls where c: "alias_chain s (b_label (blocks s B)) ls" and d: "distinct ls"
    and a: "\<forall>l \<in> set ls. li_block (label_info s ! l) = Some B"
    and b: "\<forall>l < max_label_info s. li_block (label_info s ! l) = Some B \<longrightarrow> l \<in> set ls"
    unfolding block_labels_ok_def label_sound_def by blast
  have old: "label_info ?s' ! l = label_info s ! l" if "l < max_label_info s" for l
    using that by (simp add: max_label_info_def nth_append)
  have new: "label_info ?s' ! l = zero_info" if "max_label_info s \<le> l" "l < max_label_info ?s'" for l
    using that by (simp add: max_label_info_def nth_append)
  have same: "\<forall>l \<in> set ls. label_info ?s' ! l = label_info s ! l"
    using alias_chain_lt[OF c] old by blast
  have "alias_chain ?s' (b_label (blocks s B)) ls"
    by (rule alias_chain_mono[OF c _ same]) (simp add: max_label_info_def)
  then have c': "alias_chain ?s' (b_label (blocks ?s' B)) ls" by simp
  have a': "\<forall>l \<in> set ls. li_block (label_info ?s' ! l) = Some B" using a same by simp
  have b': "\<forall>l < max_label_info ?s'. li_block (label_info ?s' ! l) = Some B \<longrightarrow> l \<in> set ls"
  proof (intro allI impI)
    fix l assume l: "l < max_label_info ?s'" and bl: "li_block (label_info ?s' ! l) = Some B"
    show "l \<in> set ls"
    proof (cases "l < max_label_info s")
      case True
      with bl b old show ?thesis by simp
    next
      case False
      then have "label_info ?s' ! l = zero_info" using new l by simp
      with bl show ?thesis by (simp add: zero_info_def)
    qed
  qed
  from c' d a' b' show "block_labels_ok ?s' B" unfolding block_labels_ok_def by blast
qed

lemma record_label_sound:
  assumes snd: "label_sound s"
    and fresh: "label < max_label_info s \<longrightarrow> li_block (label_info s ! label) = None"
    and r: "record_label w sz block label s = Some (Inr (ok, s'))"
  shows "label_sound s'"
proof (cases "label \<ge> max_label_info s")
  case False
  with r have "s' = bind_label block label s" by (simp add: record_label_def)
  with False fresh snd show ?thesis by (simp add: bind_label_sound)
next
  case True
  let ?start = "if max_label_info s < 64 then 64 else max_label_info s"
  from r True obtain num where g: "grow_num w ?start label = Some num"
    by (auto simp: record_label_def split: option.splits)
  from grow_num_result[OF g] have ln: "label < num" by blast
  let ?s1 = "s\<lparr>label_info := label_info s @ replicate (num - max_label_info s) zero_info,
                mem := mem s - 1\<rparr>"
  from r True g have "s' = s \<or> s' = bind_label block label ?s1"
    by (auto simp: record_label_def Let_def split: if_splits)
  then show ?thesis
  proof
    assume "s' = s"
    with snd show ?thesis by simp
  next
    assume s': "s' = bind_label block label ?s1"
    have s1: "label_sound ?s1" using snd by (rule grow_sound)
    have lt: "label < max_label_info ?s1" using ln True by (simp add: max_label_info_def)
    have "label_info ?s1 ! label = zero_info"
      using ln True by (simp add: max_label_info_def nth_append)
    then have "li_block (label_info ?s1 ! label) = None" by (simp add: zero_info_def)
    with s1 lt show ?thesis unfolding s' by (rule bind_label_sound)
  qed
qed

lemma merge_labels_chain:
  assumes "alias_chain s h ls" "distinct ls"
  shows "\<exists>s'. merge_labels s dst h = Some (Inr s') \<and> max_label_info s' = max_label_info s
     \<and> (\<forall>l \<in> set ls. li_block (label_info s' ! l) = Some dst)
     \<and> (\<forall>l. l \<notin> set ls \<longrightarrow> label_info s' ! l = label_info s ! l)
     \<and> (\<forall>B. B \<noteq> dst \<longrightarrow> blocks s' B = blocks s B)
     \<and> (\<forall>ds. alias_chain s (b_label (blocks s dst)) ds \<longrightarrow> set ds \<inter> set ls = {}
            \<longrightarrow> alias_chain s' (b_label (blocks s' dst)) (rev ls @ ds))"
  using assms
proof (induction ls arbitrary: s h)
  case Nil
  then have "merge_labels s dst h = Some (Inr s)" by (subst merge_labels.simps) simp
  then show ?case by simp
next
  case (Cons l r)
  from Cons.prems have h: "h = Some l" and lt: "l < max_label_info s"
    and c: "alias_chain s (li_alias (label_info s ! l)) r" and nin: "l \<notin> set r"
    and dr: "distinct r" by auto
  let ?s1 = "bind_label dst l s"
  have same: "\<forall>x \<in> set r. label_info ?s1 ! x = label_info s ! x"
  proof
    fix x assume "x \<in> set r"
    with nin have "x \<noteq> l" by blast
    then show "label_info ?s1 ! x = label_info s ! x" by (rule bind_label_other)
  qed
  have c1: "alias_chain ?s1 (li_alias (label_info s ! l)) r"
    by (rule alias_chain_mono[OF c _ same]) (simp add: bind_label_max)
  from Cons.IH[OF c1 dr] obtain s' where
    m: "merge_labels ?s1 dst (li_alias (label_info s ! l)) = Some (Inr s')"
    and mx: "max_label_info s' = max_label_info ?s1"
    and bd: "\<forall>x \<in> set r. li_block (label_info s' ! x) = Some dst"
    and ot: "\<forall>x. x \<notin> set r \<longrightarrow> label_info s' ! x = label_info ?s1 ! x"
    and bl: "\<forall>B. B \<noteq> dst \<longrightarrow> blocks s' B = blocks ?s1 B"
    and ch: "\<forall>ds. alias_chain ?s1 (b_label (blocks ?s1 dst)) ds \<longrightarrow> set ds \<inter> set r = {}
            \<longrightarrow> alias_chain s' (b_label (blocks s' dst)) (rev r @ ds)"
    by blast
  have m': "merge_labels s dst h = Some (Inr s')"
    using m lt h by (subst merge_labels.simps) simp
  have mx': "max_label_info s' = max_label_info s" using mx by (simp add: bind_label_max)
  have bd': "\<forall>x \<in> set (l # r). li_block (label_info s' ! x) = Some dst"
  proof
    fix x assume x: "x \<in> set (l # r)"
    show "li_block (label_info s' ! x) = Some dst"
    proof (cases "x \<in> set r")
      case True with bd show ?thesis by blast
    next
      case False
      with x have "x = l" by simp
      with ot nin lt show ?thesis by (simp add: bind_label_at)
    qed
  qed
  have ot': "\<forall>x. x \<notin> set (l # r) \<longrightarrow> label_info s' ! x = label_info s ! x"
  proof (intro allI impI)
    fix x assume "x \<notin> set (l # r)"
    then have "x \<notin> set r" "x \<noteq> l" by auto
    with ot show "label_info s' ! x = label_info s ! x" by (simp add: bind_label_other)
  qed
  have bl': "\<forall>B. B \<noteq> dst \<longrightarrow> blocks s' B = blocks s B"
    using bl by (simp add: bind_label_blocks_other)
  have ch': "\<forall>ds. alias_chain s (b_label (blocks s dst)) ds \<longrightarrow> set ds \<inter> set (l # r) = {}
            \<longrightarrow> alias_chain s' (b_label (blocks s' dst)) (rev (l # r) @ ds)"
  proof (intro allI impI)
    fix ds assume cd: "alias_chain s (b_label (blocks s dst)) ds"
      and dj: "set ds \<inter> set (l # r) = {}"
    from dj have lds: "l \<notin> set ds" and djr: "set (l # ds) \<inter> set r = {}" using nin by auto
    have sameds: "\<forall>x \<in> set ds. label_info ?s1 ! x = label_info s ! x"
    proof
      fix x assume "x \<in> set ds"
      with lds have "x \<noteq> l" by blast
      then show "label_info ?s1 ! x = label_info s ! x" by (rule bind_label_other)
    qed
    have "alias_chain ?s1 (b_label (blocks s dst)) ds"
      by (rule alias_chain_mono[OF cd _ sameds]) (simp add: bind_label_max)
    then have "alias_chain ?s1 (b_label (blocks ?s1 dst)) (l # ds)"
      using lt by (simp add: bind_label_b_label bind_label_max bind_label_at)
    with ch djr have "alias_chain s' (b_label (blocks s' dst)) (rev r @ l # ds)" by blast
    then show "alias_chain s' (b_label (blocks s' dst)) (rev (l # r) @ ds)" by simp
  qed
  from m' mx' bd' ot' bl' ch' show ?case by blast
qed

lemma stale_label_unsound:
  assumes "b_label (blocks s B) = Some l" "li_block (label_info s ! l) \<noteq> Some B"
  shows "\<not> label_sound s"
proof
  assume "label_sound s"
  then obtain ls where c: "alias_chain s (b_label (blocks s B)) ls"
    and a: "\<forall>x \<in> set ls. li_block (label_info s ! x) = Some B"
    unfolding label_sound_def block_labels_ok_def by blast
  from c assms(1) have "l \<in> set ls" by (cases ls) auto
  with a assms(2) show False by blast
qed

lemma merge_labels_moves_chain:
  assumes snd: "label_sound s" and ne: "src \<noteq> dst"
  shows "\<exists>s'. merge_labels s dst (b_label (blocks s src)) = Some (Inr s')
               \<and> (\<forall>B. B \<noteq> src \<longrightarrow> block_labels_ok s' B)
               \<and> b_label (blocks s' src) = b_label (blocks s src)
               \<and> (\<forall>l < max_label_info s. li_block (label_info s ! l) = Some src \<longrightarrow>
                      block_from_label s' (Some l) = Some dst)"
proof -
  from snd obtain ls where c: "alias_chain s (b_label (blocks s src)) ls" and d: "distinct ls"
    and a: "\<forall>l \<in> set ls. li_block (label_info s ! l) = Some src"
    and b: "\<forall>l < max_label_info s. li_block (label_info s ! l) = Some src \<longrightarrow> l \<in> set ls"
    unfolding block_labels_ok_def label_sound_def by blast
  from merge_labels_chain[OF c d, of dst] obtain s' where
    m: "merge_labels s dst (b_label (blocks s src)) = Some (Inr s')"
    and mx: "max_label_info s' = max_label_info s"
    and bd: "\<forall>l \<in> set ls. li_block (label_info s' ! l) = Some dst"
    and ot: "\<forall>l. l \<notin> set ls \<longrightarrow> label_info s' ! l = label_info s ! l"
    and bl: "\<forall>B. B \<noteq> dst \<longrightarrow> blocks s' B = blocks s B"
    and ch: "\<forall>ds. alias_chain s (b_label (blocks s dst)) ds \<longrightarrow> set ds \<inter> set ls = {}
            \<longrightarrow> alias_chain s' (b_label (blocks s' dst)) (rev ls @ ds)"
    by blast
  have others: "block_labels_ok s' B" if B: "B \<noteq> src" for B
  proof -
    from snd obtain bs where cB: "alias_chain s (b_label (blocks s B)) bs" and dB: "distinct bs"
      and aB: "\<forall>l \<in> set bs. li_block (label_info s ! l) = Some B"
      and bB: "\<forall>l < max_label_info s. li_block (label_info s ! l) = Some B \<longrightarrow> l \<in> set bs"
      unfolding block_labels_ok_def label_sound_def by blast
    have dj: "set bs \<inter> set ls = {}" using a aB B by fastforce
    then have same: "\<forall>l \<in> set bs. label_info s' ! l = label_info s ! l" using ot by blast
    show ?thesis
    proof (cases "B = dst")
      case False
      have "alias_chain s' (b_label (blocks s B)) bs"
        by (rule alias_chain_mono[OF cB _ same]) (simp add: mx)
      then have c': "alias_chain s' (b_label (blocks s' B)) bs" using bl False by simp
      have a': "\<forall>l \<in> set bs. li_block (label_info s' ! l) = Some B" using aB same by simp
      have b': "\<forall>l < max_label_info s'. li_block (label_info s' ! l) = Some B \<longrightarrow> l \<in> set bs"
      proof (intro allI impI)
        fix l assume l: "l < max_label_info s'" and lb: "li_block (label_info s' ! l) = Some B"
        from lb bd False have "l \<notin> set ls" by auto
        with ot lb have "li_block (label_info s ! l) = Some B" by simp
        with bB l mx show "l \<in> set bs" by simp
      qed
      from c' dB a' b' show ?thesis unfolding block_labels_ok_def by blast
    next
      case True
      from ch cB dj True have c': "alias_chain s' (b_label (blocks s' B)) (rev ls @ bs)" by blast
      have d': "distinct (rev ls @ bs)" using d dB dj by auto
      have a': "\<forall>l \<in> set (rev ls @ bs). li_block (label_info s' ! l) = Some B"
        using bd aB same True by auto
      have b': "\<forall>l < max_label_info s'. li_block (label_info s' ! l) = Some B
                  \<longrightarrow> l \<in> set (rev ls @ bs)"
      proof (intro allI impI)
        fix l assume l: "l < max_label_info s'" and lb: "li_block (label_info s' ! l) = Some B"
        show "l \<in> set (rev ls @ bs)"
        proof (cases "l \<in> set ls")
          case True then show ?thesis by simp
        next
          case False
          with ot lb have "li_block (label_info s ! l) = Some B" by simp
          with bB l mx show ?thesis by simp
        qed
      qed
      from c' d' a' b' show ?thesis unfolding block_labels_ok_def by blast
    qed
  qed
  have stale: "b_label (blocks s' src) = b_label (blocks s src)" using bl ne by simp
  have moved: "block_from_label s' (Some l) = Some dst"
    if "l < max_label_info s" "li_block (label_info s ! l) = Some src" for l
    using that b bd mx by (simp add: block_from_label_def)
  from m others stale moved
  show "\<exists>s'. merge_labels s dst (b_label (blocks s src)) = Some (Inr s')
               \<and> (\<forall>B. B \<noteq> src \<longrightarrow> block_labels_ok s' B)
               \<and> b_label (blocks s' src) = b_label (blocks s src)
               \<and> (\<forall>l < max_label_info s. li_block (label_info s ! l) = Some src \<longrightarrow>
                      block_from_label s' (Some l) = Some dst)"
    by blast
qed

lemma merge_labels_source_unsound:
  assumes snd: "label_sound s" and ne: "src \<noteq> dst" and lb: "b_label (blocks s src) = Some l"
  shows "\<exists>s'. merge_labels s dst (b_label (blocks s src)) = Some (Inr s') \<and> \<not> label_sound s'"
proof -
  from merge_labels_moves_chain[OF snd ne] obtain s' where
    m: "merge_labels s dst (b_label (blocks s src)) = Some (Inr s')"
    and st: "b_label (blocks s' src) = b_label (blocks s src)"
    and mv: "\<forall>l < max_label_info s. li_block (label_info s ! l) = Some src \<longrightarrow>
                      block_from_label s' (Some l) = Some dst" by blast
  from snd obtain ls where c: "alias_chain s (b_label (blocks s src)) ls"
    and a: "\<forall>x \<in> set ls. li_block (label_info s ! x) = Some src"
    unfolding label_sound_def block_labels_ok_def by blast
  from c lb have ll: "l \<in> set ls" by (cases ls) auto
  with alias_chain_lt[OF c] have lt: "l < max_label_info s" by blast
  from ll a have "li_block (label_info s ! l) = Some src" by blast
  with mv lt have bf: "block_from_label s' (Some l) = Some dst" by blast
  then have "li_block (label_info s' ! l) = Some dst"
    by (simp add: block_from_label_def split: if_splits)
  with ne have "li_block (label_info s' ! l) \<noteq> Some src" by simp
  moreover from st lb have "b_label (blocks s' src) = Some l" by simp
  ultimately have "\<not> label_sound s'" by (rule stale_label_unsound[rotated])
  with m show ?thesis by blast
qed

lemma single_labels_sound:
  assumes "\<And>B. (b_label (blocks s B) = None
                 \<and> (\<forall>l < max_label_info s. li_block (label_info s ! l) \<noteq> Some B))
             \<or> (\<exists>l < max_label_info s. b_label (blocks s B) = Some l
                    \<and> label_info s ! l = \<lparr>li_block = Some B, li_alias = None\<rparr>
                    \<and> (\<forall>l' < max_label_info s. li_block (label_info s ! l') = Some B \<longrightarrow> l' = l))"
  shows "label_sound s"
  unfolding label_sound_def
proof
  fix B
  from assms[of B] show "block_labels_ok s B"
  proof
    assume a: "b_label (blocks s B) = None
                 \<and> (\<forall>l < max_label_info s. li_block (label_info s ! l) \<noteq> Some B)"
    then have "alias_chain s (b_label (blocks s B)) []" by simp
    with a show ?thesis unfolding block_labels_ok_def by (intro exI[of _ "[]"]) simp
  next
    assume "\<exists>l < max_label_info s. b_label (blocks s B) = Some l
                    \<and> label_info s ! l = \<lparr>li_block = Some B, li_alias = None\<rparr>
                    \<and> (\<forall>l' < max_label_info s. li_block (label_info s ! l') = Some B \<longrightarrow> l' = l)"
    then obtain l where l: "l < max_label_info s" and h: "b_label (blocks s B) = Some l"
      and e: "label_info s ! l = \<lparr>li_block = Some B, li_alias = None\<rparr>"
      and u: "\<forall>l' < max_label_info s. li_block (label_info s ! l') = Some B \<longrightarrow> l' = l" by blast
    have c: "alias_chain s (b_label (blocks s B)) [l]" using l h e by simp
    have a: "\<forall>x \<in> set [l]. li_block (label_info s ! x) = Some B" using e by simp
    have b: "\<forall>l' < max_label_info s. li_block (label_info s ! l') = Some B \<longrightarrow> l' \<in> set [l]"
      using u by auto
    have d: "distinct [l]" by simp
    from c d a b show ?thesis unfolding block_labels_ok_def by blast
  qed
qed

lemma self_alias_unsound:
  assumes "b_label (blocks s B) = Some a" "li_alias (label_info s ! a) = Some l"
    "li_alias (label_info s ! l) = Some l"
  shows "\<not> label_sound s"
proof
  assume "label_sound s"
  then obtain ls where c: "alias_chain s (b_label (blocks s B)) ls" and d: "distinct ls"
    unfolding label_sound_def block_labels_ok_def by blast
  from c assms(1) obtain ls1 where 1: "ls = a # ls1" "alias_chain s (li_alias (label_info s ! a)) ls1"
    by (cases ls) auto
  from 1(2) assms(2) obtain ls2 where 2: "ls1 = l # ls2" "alias_chain s (li_alias (label_info s ! l)) ls2"
    by (cases ls1) auto
  from 2(2) assms(3) obtain ls3 where 3: "ls2 = l # ls3" by (cases ls2) auto
  from d 1(1) 2(1) 3 show False by simp
qed

lemma trampoline_built:
  "case build_cfg trampoline_example of
     Some (Inr s) \<Rightarrow>
       label_info s = (replicate 8 zero_info)
           [1 := \<lparr>li_block = Some 2, li_alias = None\<rparr>, 2 := \<lparr>li_block = Some 5, li_alias = None\<rparr>,
            3 := \<lparr>li_block = Some 3, li_alias = None\<rparr>, 4 := \<lparr>li_block = Some 4, li_alias = None\<rparr>]
       \<and> (\<forall>B. b_label (blocks s B)
              = (if B = 2 then Some 1 else if B = 5 then Some 2 else if B = 3 then Some 3
                 else if B = 4 then Some 4 else None))
   | _ \<Rightarrow> False"
  by (simp add: trampoline_example_def build_defs)

lemma trampoline_sound: "label_sound (built trampoline_example)"
proof -
  from trampoline_built obtain s where b: "build_cfg trampoline_example = Some (Inr s)"
    and li: "label_info s = (replicate 8 zero_info)
           [1 := \<lparr>li_block = Some 2, li_alias = None\<rparr>, 2 := \<lparr>li_block = Some 5, li_alias = None\<rparr>,
            3 := \<lparr>li_block = Some 3, li_alias = None\<rparr>, 4 := \<lparr>li_block = Some 4, li_alias = None\<rparr>]"
    and bl: "\<And>B::nat. b_label (blocks s B)
              = (if B = 2 then Some 1 else if B = 5 then Some 2 else if B = 3 then Some 3
                 else if B = 4 then Some 4 else None)"
    by (auto split: option.splits sum.splits)
  have mx: "max_label_info s = 8" by (simp add: max_label_info_def li)
  have "label_sound s"
  proof (rule single_labels_sound)
    fix B :: nat
    consider "B = 2" | "B = 5" | "B = 3" | "B = 4" | "B \<noteq> 2 \<and> B \<noteq> 5 \<and> B \<noteq> 3 \<and> B \<noteq> 4" by blast
    then show "(b_label (blocks s B) = None
                 \<and> (\<forall>l < max_label_info s. li_block (label_info s ! l) \<noteq> Some B))
             \<or> (\<exists>l < max_label_info s. b_label (blocks s B) = Some l
                    \<and> label_info s ! l = \<lparr>li_block = Some B, li_alias = None\<rparr>
                    \<and> (\<forall>l' < max_label_info s. li_block (label_info s ! l') = Some B \<longrightarrow> l' = l))"
    proof cases
      case 1
      then show ?thesis
        by (intro disjI2 exI[of _ 1]) (simp add: mx bl li nth_list_update zero_info_def)
    next
      case 2
      then show ?thesis
        by (intro disjI2 exI[of _ 2]) (simp add: mx bl li nth_list_update zero_info_def)
    next
      case 3
      then show ?thesis
        by (intro disjI2 exI[of _ 3]) (simp add: mx bl li nth_list_update zero_info_def)
    next
      case 4
      then show ?thesis
        by (intro disjI2 exI[of _ 4]) (simp add: mx bl li nth_list_update zero_info_def)
    next
      case 5
      then show ?thesis
        by (intro disjI1) (simp add: mx bl li nth_list_update zero_info_def)
    qed
  qed
  with b show ?thesis by (simp add: built_def)
qed

text \<open>
  C8.  \<open>merge_labels\<close> moves the chain of the merged block to the successor, and
  \<open>merge_empty\<close> never resets the \<open>label\<close> field of the merged block.  A block that
  survives the merge as a trampoline is merged again in the next pass, and the second
  \<open>merge_labels\<close> walks the chain that by then belongs to the successor.  In the example
  the labels are sound after \<open>build_cfg\<close>.  After one \<open>clean_cfg\<close> the live block 5 has
  the label 2, whose alias is the label 1, whose alias is the label 1 again, so the
  chain of block 5 does not end; and the live block 2 still has the label 1, which is
  bound to block 5.
\<close>

theorem merged_labels_merged_again:
  "label_sound (built trampoline_example)
   \<and> (case clean_cfg (built trampoline_example) of
         Some (Inr s') \<Rightarrow>
           b_next (blocks s' 1) = Some 2 \<and> b_label (blocks s' 2) = Some 1
           \<and> b_next (blocks s' 4) = Some 5 \<and> b_label (blocks s' 5) = Some 2
           \<and> label_info s' ! 2 = \<lparr>li_block = Some 5, li_alias = Some 1\<rparr>
           \<and> label_info s' ! 1 = \<lparr>li_block = Some 5, li_alias = Some 1\<rparr>
           \<and> \<not> label_sound s'
       | _ \<Rightarrow> False)"
proof -
  have ev: "case clean_cfg (built trampoline_example) of
         Some (Inr s') \<Rightarrow>
           b_next (blocks s' 1) = Some 2 \<and> b_label (blocks s' 2) = Some 1
           \<and> b_next (blocks s' 4) = Some 5 \<and> b_label (blocks s' 5) = Some 2
           \<and> label_info s' ! 2 = \<lparr>li_block = Some 5, li_alias = Some 1\<rparr>
           \<and> label_info s' ! 1 = \<lparr>li_block = Some 5, li_alias = Some 1\<rparr>
       | _ \<Rightarrow> False"
    by (simp add: built_def trampoline_example_def build_defs clean_defs)
  then obtain s' where c: "clean_cfg (built trampoline_example) = Some (Inr s')"
    by (auto split: option.splits sum.splits)
  with ev have f: "b_next (blocks s' 1) = Some 2" "b_label (blocks s' 2) = Some 1"
    "b_next (blocks s' 4) = Some 5" "b_label (blocks s' 5) = Some 2"
    "label_info s' ! 2 = \<lparr>li_block = Some 5, li_alias = Some 1\<rparr>"
    "label_info s' ! 1 = \<lparr>li_block = Some 5, li_alias = Some 1\<rparr>" by simp_all
  have a2: "li_alias (label_info s' ! 2) = Some 1" using f(5) by simp
  have a1: "li_alias (label_info s' ! 1) = Some 1" using f(6) by simp
  from f(4) a2 a1 have "\<not> label_sound s'" by (rule self_alias_unsound)
  with f trampoline_sound show ?thesis unfolding c by simp
qed

section \<open>Merging an empty block\<close>

text \<open>
  C1 on the example.  Block 1 is empty, its predecessors are the fall-through edge 0
  from the entry block and the branch edge 2 from block 2, and its one successor edge
  1 falls through to block 2.  \<open>merge_empty\<close> leaves the fall-through edge 0 aimed at
  block 1, enters the branch edge 2 twice among the predecessors of block 2, and
  deletes block 1; \<open>clean_cfg\<close> then walks into the deleted block.
\<close>

theorem merge_empty_retargets_last_edge:
  "(case build_cfg loop_back_example of
      Some (Inr s) \<Rightarrow>
        b_preds (blocks s 1) = [0, 2] \<and> b_succs (blocks s 1) = [1]
        \<and> edges s 0 = \<lparr>e_src = 0, e_dst = 1, e_flags = JIT_EDGE_FALLTHRU\<rparr>
        \<and> edges s 1 = \<lparr>e_src = 1, e_dst = 2, e_flags = JIT_EDGE_FALLTHRU\<rparr>
        \<and> edges s 2 = \<lparr>e_src = 2, e_dst = 1, e_flags = JIT_EDGE_BRANCH\<rparr>
        \<and> is_empty_block (blocks s 1)
        \<and> (case merge_empty 1 False s of
              Some (Inr (changed, s')) \<Rightarrow>
                edges s' 0 = \<lparr>e_src = 0, e_dst = 1, e_flags = JIT_EDGE_FALLTHRU\<rparr>
                \<and> b_preds (blocks s' 2) = [2, 2]
                \<and> b_next (blocks s' 0) = Some 2 \<and> b_succs (blocks s' 1) = []
            | _ \<Rightarrow> False)
        \<and> clean_cfg s = Some (Inl MEMORY_FAULT)
    | _ \<Rightarrow> False)"
  by (simp add: loop_back_example_def build_defs clean_defs)

section \<open>Useless branches\<close>

lemma clean_loop_after_pass:
  "clean_loop s = after_pass (clean_pass (butlast (drop 1 (block_order s))) False s)"
  by (subst clean_loop.simps) (simp add: after_pass_def interior_def)

lemma loop_state_clean_cfg: "loop_state n s = Some t \<Longrightarrow> clean_cfg s = clean_loop t"
proof (induction n arbitrary: t)
  case 0
  then show ?case
    by (auto simp: clean_cfg_def obind_def split: option.splits sum.splits bool.splits)
next
  case (Suc n)
  from Suc.prems obtain t0 t1 t2 where t0: "loop_state n s = Some t0"
    and p: "clean_pass (butlast (drop 1 (block_order t0))) False t0 = Some (Inr (True, t1))"
    and c: "compute_postorder t1 = Some (Inr (True, t2))" and v: "clear_visited t2 = Some t"
    by (auto split: option.splits sum.splits bool.splits)
  from Suc.IH[OF t0] have "clean_cfg s = clean_loop t0" .
  also have "\<dots> = clean_loop t"
    using p c v by (subst clean_loop_after_pass) (simp add: after_pass_def)
  finally show ?case .
qed

lemma clean_pass_append:
  "clean_pass (xs @ ys) c s = obind (clean_pass xs c s) (\<lambda>(c1, s1). clean_pass ys c1 s1)"
proof (induction xs arbitrary: c s)
  case Nil
  show ?case by (simp add: obind_def)
next
  case (Cons x xs)
  show ?case
  proof (cases "clean_block x c s")
    case None
    then show ?thesis by (simp add: obind_def)
  next
    case (Some r)
    show ?thesis
    proof (cases r)
      case (Inl e)
      with Some show ?thesis by (simp add: obind_def)
    next
      case (Inr cs)
      obtain c1 s1 where "cs = (c1, s1)" by (cases cs)
      with Some Inr Cons.IH[of c1 s1] show ?thesis by (simp add: obind_def)
    qed
  qed
qed

lemma useless_branch_step:
  assumes n1: "num_succs (blocks s block) = 1"
    and succs: "b_succs (blocks s block) = e0 # es"
    and fl: "e_flags (edges s e0) = JIT_EDGE_BRANCH"
    and tgt: "b_next (blocks s block) = Some (e_dst (edges s e0))"
    and tm: "b_insns (blocks s block) \<noteq> []"
  shows "\<exists>s'. clean_branch block changed s = Inr (True, s')
     \<and> opcode (last (b_insns (blocks s' block))) = JIT_OP_NOP
     \<and> butlast (b_insns (blocks s' block)) = butlast (b_insns (blocks s block))
     \<and> \<not> ends_in_dead (blocks s' block)
     \<and> edges s' e0 = (edges s e0)\<lparr>e_flags := JIT_EDGE_FALLTHRU\<rparr>
     \<and> b_succs (blocks s' block) = b_succs (blocks s block)
     \<and> num_succs (blocks s' block) = 1
     \<and> (\<forall>e. e \<noteq> e0 \<longrightarrow> edges s' e = edges s e)
     \<and> (\<forall>b. b \<noteq> block \<longrightarrow> blocks s' b = blocks s b)
     \<and> clean_block block changed s =
          (if is_empty_block (blocks s' block) then merge_empty block True s'
           else Some (Inr (True, s')))"
proof -
  let ?insn = "last (b_insns (blocks s block))"
  let ?s1 = "upd_block block
       (\<lambda>b. b\<lparr>b_insns := butlast (b_insns b) @ [?insn\<lparr>opcode := JIT_OP_NOP\<rparr>]\<rparr>) s"
  let ?s' = "upd_edge e0 (\<lambda>e. e\<lparr>e_flags := JIT_EDGE_FALLTHRU\<rparr>)
               (upd_block block (\<lambda>b. b\<lparr>ends_in_dead := False\<rparr>) ?s1)"
  have gl: "block_get_last (blocks s block) = Some ?insn"
    using tm by (simp add: block_get_last_def)
  have so: "set_last_opcode block JIT_OP_NOP s = Inr ?s1"
    by (simp add: set_last_opcode_def gl)
  have n1': "num_succs (blocks ?s1 block) = 1" using n1 by (simp add: upd_block_def)
  have cb: "clean_branch block changed s = Inr (True, ?s')"
    using succs fl tgt so n1' by (simp add: clean_branch_def ebind_def)
  have a: "opcode (last (b_insns (blocks ?s' block))) = JIT_OP_NOP"
    by (simp add: upd_block_def upd_edge_def)
  have b: "butlast (b_insns (blocks ?s' block)) = butlast (b_insns (blocks s block))"
    by (simp add: upd_block_def upd_edge_def)
  have c: "\<not> ends_in_dead (blocks ?s' block)" by (simp add: upd_block_def upd_edge_def)
  have d: "edges ?s' e0 = (edges s e0)\<lparr>e_flags := JIT_EDGE_FALLTHRU\<rparr>"
    by (simp add: upd_block_def upd_edge_def)
  have e: "b_succs (blocks ?s' block) = b_succs (blocks s block)"
    by (simp add: upd_block_def upd_edge_def)
  have f: "num_succs (blocks ?s' block) = 1" using n1 by (simp add: upd_block_def upd_edge_def)
  have fe: "\<forall>e. e \<noteq> e0 \<longrightarrow> edges ?s' e = edges s e"
    by (simp add: upd_block_def upd_edge_def)
  have fb: "\<forall>b. b \<noteq> block \<longrightarrow> blocks ?s' b = blocks s b"
    by (simp add: upd_block_def upd_edge_def)
  have fl': "e_flags (edges ?s' e0) = JIT_EDGE_FALLTHRU" using d by simp
  have g: "clean_block block changed s =
          (if is_empty_block (blocks ?s' block) then merge_empty block True ?s'
           else Some (Inr (True, ?s')))"
    using n1 cb f fl' e succs
    by (simp add: clean_block_def del: One_nat_def)
  from cb a b c d e f fe fb g show ?thesis by blast
qed

lemma pass_rewrites_useless_branch:
  assumes ls: "loop_state n s = Some t"
    and ord: "block_order t = x # pre @ block # post @ [e]"
    and pre: "clean_pass pre False t = Some (Inr (ch, s3))"
    and n1: "num_succs (blocks s3 block) = 1"
    and succs: "b_succs (blocks s3 block) = e0 # es"
    and fl: "e_flags (edges s3 e0) = JIT_EDGE_BRANCH"
    and tgt: "b_next (blocks s3 block) = Some (e_dst (edges s3 e0))"
    and tm: "b_insns (blocks s3 block) \<noteq> []"
  shows "\<exists>s4. opcode (last (b_insns (blocks s4 block))) = JIT_OP_NOP
     \<and> butlast (b_insns (blocks s4 block)) = butlast (b_insns (blocks s3 block))
     \<and> \<not> ends_in_dead (blocks s4 block)
     \<and> edges s4 e0 = (edges s3 e0)\<lparr>e_flags := JIT_EDGE_FALLTHRU\<rparr>
     \<and> b_succs (blocks s4 block) = b_succs (blocks s3 block)
     \<and> num_succs (blocks s4 block) = 1
     \<and> (\<forall>e. e \<noteq> e0 \<longrightarrow> edges s4 e = edges s3 e)
     \<and> (\<forall>b. b \<noteq> block \<longrightarrow> blocks s4 b = blocks s3 b)
     \<and> clean_cfg s =
          after_pass
            (obind (if is_empty_block (blocks s4 block) then merge_empty block True s4
                    else Some (Inr (True, s4)))
               (\<lambda>(c, s5). clean_pass post c s5))"
proof -
  from useless_branch_step[OF n1 succs fl tgt tm, of ch] obtain s4 where
    p: "opcode (last (b_insns (blocks s4 block))) = JIT_OP_NOP"
      "butlast (b_insns (blocks s4 block)) = butlast (b_insns (blocks s3 block))"
      "\<not> ends_in_dead (blocks s4 block)"
      "edges s4 e0 = (edges s3 e0)\<lparr>e_flags := JIT_EDGE_FALLTHRU\<rparr>"
      "b_succs (blocks s4 block) = b_succs (blocks s3 block)"
      "num_succs (blocks s4 block) = 1"
      "\<forall>e. e \<noteq> e0 \<longrightarrow> edges s4 e = edges s3 e"
      "\<forall>b. b \<noteq> block \<longrightarrow> blocks s4 b = blocks s3 b"
    and cb: "clean_block block ch s3 =
          (if is_empty_block (blocks s4 block) then merge_empty block True s4
           else Some (Inr (True, s4)))"
    by blast
  have "butlast (drop 1 (block_order t)) = pre @ block # post"
    by (simp add: ord butlast_append)
  then have "clean_pass (butlast (drop 1 (block_order t))) False t
      = obind (clean_pass pre False t) (\<lambda>(c1, s1). clean_pass (block # post) c1 s1)"
    by (simp only: clean_pass_append)
  also have "\<dots> = obind (clean_block block ch s3) (\<lambda>(c, s5). clean_pass post c s5)"
    by (simp add: pre obind_def)
  finally have "clean_loop t
      = after_pass (obind (clean_block block ch s3) (\<lambda>(c, s5). clean_pass post c s5))"
    by (simp only: clean_loop_after_pass)
  with loop_state_clean_cfg[OF ls] cb have "clean_cfg s =
          after_pass
            (obind (if is_empty_block (blocks s4 block) then merge_empty block True s4
                    else Some (Inr (True, s4)))
               (\<lambda>(c, s5). clean_pass post c s5))" by simp
  with p show ?thesis by blast
qed

text \<open>
  C6, as amended.  In a pass of the loop of \<open>clean_cfg\<close> whose post-order starts with the
  exit block and ends with the entry block, let the pass have visited the blocks before
  \<open>block\<close> and arrive at \<open>block\<close> with one counted successor edge, of flag \<open>BRANCH\<close>,
  whose target is the list successor, and with a last instruction.  Then the visit
  overwrites the opcode of that instruction with \<open>NOP\<close>, clears \<open>ends_in_dead\<close> and sets
  the flag of the edge to \<open>FALLTHRU\<close>; it changes nothing else of the edge, no other edge
  and no other block.  \<open>clean_cfg\<close> goes on from this state: with \<open>merge_empty\<close> when
  the block is now empty, then with the blocks after \<open>block\<close>, the pass being marked as
  changed.
\<close>

theorem useless_branch_rewritten_in_pass:
  assumes ls: "loop_state n s = Some t"
    and ord: "block_order t = x # pre @ block # post @ [e]"
    and ex: "exit_block t = Some x" and en: "entry_block t = Some e"
    and pre: "clean_pass pre False t = Some (Inr (ch, s3))"
    and n1: "num_succs (blocks s3 block) = 1"
    and succs: "b_succs (blocks s3 block) = e0 # es"
    and fl: "e_flags (edges s3 e0) = JIT_EDGE_BRANCH"
    and tgt: "b_next (blocks s3 block) = Some (e_dst (edges s3 e0))"
    and tm: "b_insns (blocks s3 block) \<noteq> []"
  shows "\<exists>s4. opcode (last (b_insns (blocks s4 block))) = JIT_OP_NOP
     \<and> butlast (b_insns (blocks s4 block)) = butlast (b_insns (blocks s3 block))
     \<and> \<not> ends_in_dead (blocks s4 block)
     \<and> edges s4 e0 = (edges s3 e0)\<lparr>e_flags := JIT_EDGE_FALLTHRU\<rparr>
     \<and> b_succs (blocks s4 block) = b_succs (blocks s3 block)
     \<and> num_succs (blocks s4 block) = 1
     \<and> (\<forall>e. e \<noteq> e0 \<longrightarrow> edges s4 e = edges s3 e)
     \<and> (\<forall>b. b \<noteq> block \<longrightarrow> blocks s4 b = blocks s3 b)
     \<and> clean_cfg s =
          after_pass
            (obind (if is_empty_block (blocks s4 block) then merge_empty block True s4
                    else Some (Inr (True, s4)))
               (\<lambda>(c, s5). clean_pass post c s5))"
  using ls ord pre n1 succs fl tgt tm by (rule pass_rewrites_useless_branch)

lemma useless_branch_example_loop:
  "case loop_state 0 (built useless_branch_example) of
     Some t \<Rightarrow>
       block_order t = [3, 2, 1, 0] \<and> exit_block t = Some 3 \<and> entry_block t = Some 0
       \<and> clean_pass [2] False t = Some (Inr (False, t))
       \<and> num_succs (blocks t 1) = 1 \<and> b_succs (blocks t 1) = [1]
       \<and> edges t 1 = \<lparr>e_src = 1, e_dst = 2, e_flags = JIT_EDGE_BRANCH\<rparr>
       \<and> b_next (blocks t 1) = Some 2
       \<and> map opcode (b_insns (blocks t 1)) = [JIT_OP_OTHER 0, JIT_OP_BR]
   | None \<Rightarrow> False"
  by (simp add: built_def useless_branch_example_def build_defs clean_defs)

theorem useless_branch_rewritten_in_pass_witness:
  "\<exists>t s4. loop_state 0 (built useless_branch_example) = Some t
     \<and> block_order t = 3 # [2] @ 1 # [] @ [0]
     \<and> exit_block t = Some 3 \<and> entry_block t = Some 0
     \<and> clean_pass [2] False t = Some (Inr (False, t))
     \<and> num_succs (blocks t 1) = 1 \<and> b_succs (blocks t 1) = [1]
     \<and> e_flags (edges t 1) = JIT_EDGE_BRANCH
     \<and> b_next (blocks t 1) = Some (e_dst (edges t 1))
     \<and> b_insns (blocks t 1) \<noteq> []
     \<and> opcode (last (b_insns (blocks s4 1))) = JIT_OP_NOP
     \<and> \<not> ends_in_dead (blocks s4 1)
     \<and> edges s4 1 = \<lparr>e_src = 1, e_dst = 2, e_flags = JIT_EDGE_FALLTHRU\<rparr>
     \<and> clean_cfg (built useless_branch_example) = after_pass (Some (Inr (True, s4)))"
proof -
  let ?s = "built useless_branch_example"
  from useless_branch_example_loop obtain t where ls: "loop_state 0 ?s = Some t"
    and ev: "block_order t = [3, 2, 1, 0]" "exit_block t = Some 3" "entry_block t = Some 0"
      "clean_pass [2] False t = Some (Inr (False, t))"
      "num_succs (blocks t 1) = 1" "b_succs (blocks t 1) = [1]"
      "edges t 1 = \<lparr>e_src = 1, e_dst = 2, e_flags = JIT_EDGE_BRANCH\<rparr>"
      "b_next (blocks t 1) = Some 2"
      "map opcode (b_insns (blocks t 1)) = [JIT_OP_OTHER 0, JIT_OP_BR]"
    by (auto split: option.splits)
  have ord: "block_order t = 3 # [2] @ 1 # [] @ [0]" using ev(1) by simp
  have fl: "e_flags (edges t 1) = JIT_EDGE_BRANCH" using ev(7) by simp
  have tgt: "b_next (blocks t 1) = Some (e_dst (edges t 1))" using ev(7,8) by simp
  have tm: "b_insns (blocks t 1) \<noteq> []" using ev(9) by auto
  from useless_branch_rewritten_in_pass[OF ls ord ev(2) ev(3) ev(4) ev(5) ev(6) fl tgt tm]
  obtain s4 where op: "opcode (last (b_insns (blocks s4 1))) = JIT_OP_NOP"
    and bl: "butlast (b_insns (blocks s4 1)) = butlast (b_insns (blocks t 1))"
    and nd: "\<not> ends_in_dead (blocks s4 1)"
    and ed: "edges s4 1 = (edges t 1)\<lparr>e_flags := JIT_EDGE_FALLTHRU\<rparr>"
    and cc: "clean_cfg ?s =
          after_pass
            (obind (if is_empty_block (blocks s4 1) then merge_empty 1 True s4
                    else Some (Inr (True, s4)))
               (\<lambda>(c, s5). clean_pass [] c s5))"
    by blast
  from ev(9) obtain i j where ij: "b_insns (blocks t 1) = [i, j]" "opcode i = JIT_OP_OTHER 0"
    by auto
  then have "i \<in> set (butlast (b_insns (blocks s4 1)))" using bl by simp
  then have "i \<in> set (b_insns (blocks s4 1))" by (rule in_set_butlastD)
  moreover have "\<not> is_empty_opcode (opcode i)" using ij(2) by (simp add: is_empty_opcode_def)
  ultimately have ne: "\<not> is_empty_block (blocks s4 1)"
    unfolding is_empty_block_def list_all_iff by blast
  from cc ne have c2: "clean_cfg ?s = after_pass (Some (Inr (True, s4)))"
    by (simp add: obind_def)
  from ed ev(7) have e2: "edges s4 1 = \<lparr>e_src = 1, e_dst = 2, e_flags = JIT_EDGE_FALLTHRU\<rparr>"
    by simp
  from ls ord ev(2,3,4,5,6) fl tgt tm op nd e2 c2 show ?thesis by blast
qed

text \<open>
  C6 as stated fails for blocks the loop does not visit: the entry block, and the
  block at index 0 of the post-order, which is block 1 of the cycle and not the exit
  block.  Both keep their \<open>BR\<close>.
\<close>

theorem useless_branch_kept:
  "(case clean_cfg (built entry_branch_example) of
      Some (Inr s') \<Rightarrow>
        num_succs (blocks (built entry_branch_example) 0) = 1
        \<and> b_succs (blocks (built entry_branch_example) 0) = [0]
        \<and> edges (built entry_branch_example) 0 = \<lparr>e_src = 0, e_dst = 1, e_flags = JIT_EDGE_BRANCH\<rparr>
        \<and> b_next (blocks (built entry_branch_example) 0) = Some 1
        \<and> map opcode (b_insns (blocks s' 0)) = [JIT_OP_OTHER 0, JIT_OP_BR]
        \<and> ends_in_dead (blocks s' 0)
        \<and> edges s' 0 = \<lparr>e_src = 0, e_dst = 1, e_flags = JIT_EDGE_BRANCH\<rparr>
    | _ \<Rightarrow> False)
   \<and> (case clean_cfg (built branch_cycle_example) of
      Some (Inr s') \<Rightarrow>
        num_succs (blocks (built branch_cycle_example) 1) = 1
        \<and> b_succs (blocks (built branch_cycle_example) 1) = [1]
        \<and> edges (built branch_cycle_example) 1 = \<lparr>e_src = 1, e_dst = 2, e_flags = JIT_EDGE_BRANCH\<rparr>
        \<and> b_next (blocks (built branch_cycle_example) 1) = Some 2
        \<and> block_order s' = [1, 2, 0]
        \<and> map opcode (b_insns (blocks s' 1)) = [JIT_OP_OTHER 0, JIT_OP_BR]
        \<and> ends_in_dead (blocks s' 1)
        \<and> edges s' 1 = \<lparr>e_src = 1, e_dst = 2, e_flags = JIT_EDGE_BRANCH\<rparr>
    | _ \<Rightarrow> False)"
  by (simp add: built_def entry_branch_example_def branch_cycle_example_def build_defs clean_defs)

section \<open>Cleanup is not idempotent\<close>



lemma quiet_all_fallthru:
  assumes "edges s' = edges s" "b_preds (blocks s' b) = b_preds (blocks s b)"
    "num_preds (blocks s' b) = num_preds (blocks s b)"
  shows "all_fallthru s' b = all_fallthru s b"
  using assms by (simp add: all_fallthru_def)
















































section \<open>The CFG builder creates the edges of the table\<close>

lemma code_eq_refl: "code_eq s s" by (simp add: code_eq_def)

lemma code_eq_trans: "code_eq s s' \<Longrightarrow> code_eq s' s'' \<Longrightarrow> code_eq s s''"
  by (simp add: code_eq_def)

lemma create_edge_code_eq: "create_edge src d fl c s = Inr s' \<Longrightarrow> code_eq s s'"
  by (auto simp: create_edge_def ebind_def code_eq_def upd_block_def Let_def split: if_splits)

lemma code_eq_from_label: "code_eq s s' \<Longrightarrow> block_from_label s' l = block_from_label s l"
  by (cases l) (simp_all add: code_eq_def block_from_label_def max_label_info_def)

lemma code_eq_get_last: "code_eq s s' \<Longrightarrow> block_get_last (blocks s' b) = block_get_last (blocks s b)"
  by (simp add: code_eq_def block_get_last_def)

lemma code_eq_out_edges:
  assumes "code_eq s s'"
  shows "out_edges s' b = out_edges s b"
proof -
  have a: "\<And>l. block_from_label s' l = block_from_label s l"
    using assms by (rule code_eq_from_label)
  have b: "block_get_last (blocks s' b) = block_get_last (blocks s b)"
    using assms by (rule code_eq_get_last)
  have c: "exit_block s' = exit_block s" "catcher_label s' = catcher_label s"
    "ends_in_dead (blocks s' b) = ends_in_dead (blocks s b)"
    "b_next (blocks s' b) = b_next (blocks s b)"
    using assms by (simp_all add: code_eq_def)
  show ?thesis unfolding out_edges_def explicit_edges_def a b c ..
qed

lemma code_eq_undefined:
  assumes "code_eq s s'"
  shows "undefined_target s' b = undefined_target s b"
proof -
  have a: "\<And>l. block_from_label s' l = block_from_label s l"
    using assms by (rule code_eq_from_label)
  have b: "block_get_last (blocks s' b) = block_get_last (blocks s b)"
    using assms by (rule code_eq_get_last)
  show ?thesis unfolding undefined_target_def a b ..
qed

lemma code_eq_path: "code_eq s s' \<Longrightarrow> path s' p bs q = path s p bs q"
  by (induction bs arbitrary: p) (simp_all add: code_eq_def)

lemma create_edges_code_eq: "create_edges src es c s = Inr s' \<Longrightarrow> code_eq s s'"
proof (induction es arbitrary: s)
  case Nil then show ?case by (simp add: code_eq_refl)
next
  case (Cons a es)
  obtain fl d where a: "a = (fl, d)" by (cases a)
  from Cons.prems a obtain s1 where s1: "create_edge src d fl c s = Inr s1"
    and r: "create_edges src es c s1 = Inr s'"
    by (auto simp: ebind_def split: sum.splits)
  from create_edge_code_eq[OF s1] Cons.IH[OF r] show ?case by (rule code_eq_trans)
qed

lemma create_edges_append:
  "create_edges src (xs @ ys) c s = ebind (create_edges src xs c s) (create_edges src ys c)"
  by (induction xs arbitrary: s) (auto simp: ebind_def split: sum.splits)

lemma ebind_assoc: "ebind (ebind r f) g = ebind r (\<lambda>x. ebind (f x) g)"
  by (simp add: ebind_def split: sum.splits)

lemma ebind_cong: "(\<And>x. r = Inr x \<Longrightarrow> f x = g x) \<Longrightarrow> ebind r f = ebind r g"
  by (simp add: ebind_def split: sum.splits)

lemma target_edge_simps:
  "target_edge fl None = []" "target_edge fl (Some x) = [(fl, x)]"
  by (simp_all add: target_edge_def)

lemma ebind_Inr: "ebind (Inr x) f = f x" by (simp add: ebind_def)

lemma ebind_Inl: "ebind (Inl e) f = Inl e" by (simp add: ebind_def)

lemma create_edge_count:
  "create_edge src d fl False s =
     Inr (upd_block d (\<lambda>b. b\<lparr>num_preds := Suc (num_preds b)\<rparr>)
            (upd_block src (\<lambda>b. b\<lparr>num_succs := Suc (num_succs b)\<rparr>) s))"
  by (simp add: create_edge_def ebind_def)

lemma create_edge_error: "create_edge src d fl c s = Inl e \<Longrightarrow> e \<noteq> JIT_RESULT_UNDEFINED_LABEL"
  by (auto simp: create_edge_def ebind_def Let_def split: if_splits)

lemma create_edges_error: "create_edges src es c s = Inl e \<Longrightarrow> e \<noteq> JIT_RESULT_UNDEFINED_LABEL"
proof (induction es arbitrary: s)
  case Nil then show ?case by simp
next
  case (Cons a es)
  obtain fl d where a: "a = (fl, d)" by (cases a)
  show ?case
  proof (cases "create_edge src d fl c s")
    case (Inl e')
    with Cons.prems a have "e' = e" by (simp add: ebind_def)
    with Inl show ?thesis by (auto dest: create_edge_error)
  next
    case (Inr s1)
    with Cons.prems a have "create_edges src es c s1 = Inl e" by (simp add: ebind_def)
    then show ?thesis by (rule Cons.IH)
  qed
qed

lemma create_edges_count_Inr: "\<exists>s'. create_edges src es False s = Inr s'"
proof (induction es arbitrary: s)
  case Nil then show ?case by simp
next
  case (Cons a es)
  obtain fl d where a: "a = (fl, d)" by (cases a)
  show ?case using Cons.IH by (simp add: a create_edge_count ebind_def)
qed

lemma jump_table_edges_defined:
  "(\<forall>l \<in> set ls. block_from_label s l \<noteq> None) \<Longrightarrow>
   jump_table_edges src ls c s =
     create_edges src (concat (map (\<lambda>l. target_edge JIT_EDGE_BRANCH (block_from_label s l)) ls)) c s"
proof (induction ls arbitrary: s)
  case Nil then show ?case by simp
next
  case (Cons l ls)
  from Cons.prems obtain d where d: "block_from_label s l = Some d" by auto
  have cont: "jump_table_edges src ls c s1 =
      create_edges src (concat (map (\<lambda>l. target_edge JIT_EDGE_BRANCH (block_from_label s l)) ls)) c s1"
    if "create_edge src d JIT_EDGE_BRANCH c s = Inr s1" for s1
  proof -
    from that have ce: "code_eq s s1" by (rule create_edge_code_eq)
    then have fl: "\<And>l. block_from_label s1 l = block_from_label s l" by (rule code_eq_from_label)
    from Cons.prems have "\<forall>l \<in> set ls. block_from_label s1 l \<noteq> None" by (simp add: fl)
    from Cons.IH[OF this] show ?thesis by (simp add: fl)
  qed
  show ?case
    by (simp add: d target_edge_simps) (rule ebind_cong, rule cont)
qed

lemma jump_table_edges_undefined:
  "(\<exists>l \<in> set ls. block_from_label s l = None) \<Longrightarrow>
   jump_table_edges src ls False s = Inl JIT_RESULT_UNDEFINED_LABEL"
proof (induction ls arbitrary: s)
  case Nil then show ?case by simp
next
  case (Cons l ls)
  show ?case
  proof (cases "block_from_label s l")
    case None then show ?thesis by simp
  next
    case (Some d)
    let ?s1 = "upd_block d (\<lambda>b. b\<lparr>num_preds := Suc (num_preds b)\<rparr>)
            (upd_block src (\<lambda>b. b\<lparr>num_succs := Suc (num_succs b)\<rparr>) s)"
    have ce: "code_eq s ?s1" by (rule create_edge_code_eq[OF create_edge_count])
    from Cons.prems Some have "\<exists>l \<in> set ls. block_from_label s l = None" by auto
    then have "\<exists>l \<in> set ls. block_from_label ?s1 l = None"
      by (simp add: code_eq_from_label[OF ce])
    from Cons.IH[OF this] show ?thesis by (simp add: Some create_edge_count ebind_def)
  qed
qed

lemma ebind_Inr_right: "ebind r Inr = r"
  by (simp add: ebind_def split: sum.splits)

lemma ebind_create_nil: "ebind r (create_edges src [] c) = r"
  by (simp add: ebind_def split: sum.splits)

lemma classify_edges:
  assumes nu: "\<not> undefined_target s src"
  shows "ebind (classify src c s)
           (\<lambda>(s1, ed). case ed of None \<Rightarrow> Inr s1
                        | Some (fl, dst) \<Rightarrow> create_edge src dst fl c s1)
         = create_edges src (explicit_edges s src) c s"
proof (cases "block_get_last (blocks s src)")
  case None
  then show ?thesis
    by (simp add: classify_def explicit_edges_def is_return_op_def is_cond_branch_op_def
          is_call_op_def ebind_def)
next
  case (Some i)
  note defs = classify_def explicit_edges_def is_return_op_def is_cond_branch_op_def
          is_call_op_def ebind_Inr ebind_Inl target_edge_simps ebind_create_nil
  from nu Some have
    u1: "opcode i = JIT_OP_BR \<or> is_cond_branch_op (opcode i)
          \<or> opcode i = JIT_OP_CALL_FINALLY \<or> opcode i = JIT_OP_CALL_FILTER
         \<Longrightarrow> block_from_label s (dest i) \<noteq> None"
    and u2: "opcode i = JIT_OP_JUMP_TABLE \<Longrightarrow> \<forall>l \<in> set (jt_labels i). block_from_label s l \<noteq> None"
    by (auto simp: undefined_target_def)
  show ?thesis
  proof (cases "opcode i")
    case JIT_OP_NOP
    then show ?thesis using Some by (simp add: defs)
  next
    case JIT_OP_MARK_OFFSET
    then show ?thesis using Some by (simp add: defs)
  next
    case JIT_OP_BR
    with u1 obtain d where "block_from_label s (dest i) = Some d" by auto
    then show ?thesis using Some JIT_OP_BR by (simp add: defs)
  next
    case (JIT_OP_BR_COND n)
    with u1 obtain d where "block_from_label s (dest i) = Some d"
      by (auto simp: is_cond_branch_op_def)
    then show ?thesis using Some JIT_OP_BR_COND by (simp add: defs)
  next
    case (JIT_OP_RETURN n)
    then show ?thesis using Some by (cases "exit_block s") (simp_all add: defs)
  next
    case JIT_OP_THROW
    then show ?thesis using Some
      by (cases "exit_block s"; cases "block_from_label s (catcher_label s)") (simp_all add: defs)
  next
    case JIT_OP_RETHROW
    then show ?thesis using Some
      by (cases "exit_block s"; cases "block_from_label s (catcher_label s)") (simp_all add: defs)
  next
    case JIT_OP_CALL_FINALLY
    with u1 obtain d where "block_from_label s (dest i) = Some d" by auto
    then show ?thesis using Some JIT_OP_CALL_FINALLY by (simp add: defs)
  next
    case JIT_OP_CALL_FILTER
    with u1 obtain d where "block_from_label s (dest i) = Some d" by auto
    then show ?thesis using Some JIT_OP_CALL_FILTER by (simp add: defs)
  next
    case (JIT_OP_CALL n)
    then show ?thesis using Some
      by (cases "exit_block s"; cases "block_from_label s (catcher_label s)") (simp_all add: defs)
  next
    case JIT_OP_JUMP_TABLE
    from u2[OF this] have "jump_table_edges src (jt_labels i) c s =
      create_edges src (concat (map (\<lambda>l. target_edge JIT_EDGE_BRANCH (block_from_label s l))
         (jt_labels i))) c s"
      by (rule jump_table_edges_defined)
    then show ?thesis using Some JIT_OP_JUMP_TABLE
      by (simp add: classify_def explicit_edges_def is_return_op_def is_cond_branch_op_def
          is_call_op_def ebind_assoc ebind_Inr ebind_Inr_right[unfolded id_def])
  next
    case (JIT_OP_OTHER n)
    then show ?thesis using Some by (simp add: defs)
  qed
qed

lemma classify_undefined:
  assumes "undefined_target s src"
  shows "classify src False s = Inl JIT_RESULT_UNDEFINED_LABEL"
proof -
  from assms obtain i where i: "block_get_last (blocks s src) = Some i"
    by (auto simp: undefined_target_def split: option.splits)
  from assms i consider
    (br) "opcode i = JIT_OP_BR \<or> is_cond_branch_op (opcode i)
          \<or> opcode i = JIT_OP_CALL_FINALLY \<or> opcode i = JIT_OP_CALL_FILTER"
         "block_from_label s (dest i) = None"
    | (jt) "opcode i = JIT_OP_JUMP_TABLE" "\<exists>l \<in> set (jt_labels i). block_from_label s l = None"
    by (auto simp: undefined_target_def)
  then show ?thesis
  proof cases
    case br
    then show ?thesis using i
      by (auto simp: classify_def is_return_op_def is_cond_branch_op_def is_call_op_def
            split: opcode.splits)
  next
    case jt
    from jump_table_edges_undefined[OF jt(2)] show ?thesis using i jt(1)
      by (simp add: classify_def is_return_op_def is_cond_branch_op_def is_call_op_def ebind_Inl)
  qed
qed

lemma build_block_edges_plan:
  assumes nu: "\<not> undefined_target s src"
    and nx: "ends_in_dead (blocks s src) \<or> b_next (blocks s src) \<noteq> None"
  shows "build_block_edges src c s = create_edges src (out_edges s src) c s"
proof -
  let ?ft = "if ends_in_dead (blocks s src) then []
             else target_edge JIT_EDGE_FALLTHRU (b_next (blocks s src))"
  have tail: "(if \<not> ends_in_dead (blocks s2 src) then
                 (case b_next (blocks s2 src) of
                    None \<Rightarrow> Inl MEMORY_FAULT
                  | Some n \<Rightarrow> create_edge src n JIT_EDGE_FALLTHRU c s2)
               else Inr s2) = create_edges src ?ft c s2"
    if "create_edges src (explicit_edges s src) c s = Inr s2" for s2
  proof -
    from that have "code_eq s s2" by (rule create_edges_code_eq)
    then have "ends_in_dead (blocks s2 src) = ends_in_dead (blocks s src)"
      "b_next (blocks s2 src) = b_next (blocks s src)" by (simp_all add: code_eq_def)
    with nx show ?thesis by (auto simp: target_edge_simps ebind_create_nil)
  qed
  have "build_block_edges src c s =
      ebind (ebind (classify src c s)
           (\<lambda>(s1, ed). case ed of None \<Rightarrow> Inr s1
                        | Some (fl, dst) \<Rightarrow> create_edge src dst fl c s1))
        (\<lambda>s2. if \<not> ends_in_dead (blocks s2 src) then
                 (case b_next (blocks s2 src) of
                    None \<Rightarrow> Inl MEMORY_FAULT
                  | Some n \<Rightarrow> create_edge src n JIT_EDGE_FALLTHRU c s2)
               else Inr s2)"
    by (simp add: build_block_edges_def ebind_def split: sum.splits prod.splits)
  also have "\<dots> = ebind (create_edges src (explicit_edges s src) c s)
        (\<lambda>s2. if \<not> ends_in_dead (blocks s2 src) then
                 (case b_next (blocks s2 src) of
                    None \<Rightarrow> Inl MEMORY_FAULT
                  | Some n \<Rightarrow> create_edge src n JIT_EDGE_FALLTHRU c s2)
               else Inr s2)"
    by (simp only: classify_edges[OF nu])
  also have "\<dots> = ebind (create_edges src (explicit_edges s src) c s) (create_edges src ?ft c)"
    by (rule ebind_cong) (rule tail)
  also have "\<dots> = create_edges src (out_edges s src) c s"
    by (simp add: out_edges_def create_edges_append)
  finally show ?thesis .
qed

lemma build_block_edges_undefined:
  "undefined_target s src \<Longrightarrow> build_block_edges src False s = Inl JIT_RESULT_UNDEFINED_LABEL"
  by (simp add: build_block_edges_def classify_undefined ebind_Inl)

lemma code_eq_edge_plan: "code_eq s s' \<Longrightarrow> edge_plan s' bs = edge_plan s bs"
  by (simp add: edge_plan_def code_eq_out_edges)

lemma create_all_code_eq: "create_all pl c s = Inr s' \<Longrightarrow> code_eq s s'"
proof (induction pl arbitrary: s)
  case Nil then show ?case by (simp add: code_eq_refl)
next
  case (Cons a pl)
  obtain src es where a: "a = (src, es)" by (cases a)
  from Cons.prems a obtain s1 where s1: "create_edges src es c s = Inr s1"
    and r: "create_all pl c s1 = Inr s'"
    by (auto simp: ebind_def split: sum.splits)
  from create_edges_code_eq[OF s1] Cons.IH[OF r] show ?case by (rule code_eq_trans)
qed

lemma create_all_error: "create_all pl c s = Inl e \<Longrightarrow> e \<noteq> JIT_RESULT_UNDEFINED_LABEL"
proof (induction pl arbitrary: s)
  case Nil then show ?case by simp
next
  case (Cons a pl)
  obtain src es where a: "a = (src, es)" by (cases a)
  show ?case
  proof (cases "create_edges src es c s")
    case (Inl e')
    with Cons.prems a have "e' = e" by (simp add: ebind_def)
    with Inl show ?thesis by (auto dest: create_edges_error)
  next
    case (Inr s1)
    with Cons.prems a have "create_all pl c s1 = Inl e" by (simp add: ebind_def)
    then show ?thesis by (rule Cons.IH)
  qed
qed

lemma create_all_count_Inr: "\<exists>s'. create_all pl False s = Inr s'"
proof (induction pl arbitrary: s)
  case Nil then show ?case by simp
next
  case (Cons a pl)
  obtain src es where a: "a = (src, es)" by (cases a)
  from create_edges_count_Inr[of src es s] obtain s1 where "create_edges src es False s = Inr s1" ..
  with Cons.IH[of s1] show ?case by (simp add: a ebind_def)
qed

lemma path_next:
  "path s p bs q \<Longrightarrow> q \<noteq> None \<Longrightarrow> b \<in> set bs \<Longrightarrow> b_next (blocks s b) \<noteq> None"
proof (induction bs arbitrary: p)
  case Nil then show ?case by simp
next
  case (Cons a bs)
  show ?case
  proof (cases "b = a")
    case True
    with Cons.prems have "path s (b_next (blocks s b)) bs q" by simp
    with Cons.prems(2) show ?thesis by (cases bs) auto
  next
    case False
    with Cons show ?thesis by auto
  qed
qed

lemma build_edges_from_plan:
  assumes "path s src bs (exit_block s)" "exit_block s \<noteq> None"
    "\<forall>b \<in> set bs. \<not> undefined_target s b"
  shows "build_edges_from src c s = Some (create_all (edge_plan s bs) c s)"
  using assms
proof (induction bs arbitrary: src s)
  case Nil
  then show ?case by (subst build_edges_from.simps) (simp add: edge_plan_def)
next
  case (Cons b bs)
  from Cons.prems have src: "src = Some b" and ne: "src \<noteq> exit_block s"
    and p: "path s (b_next (blocks s b)) bs (exit_block s)" by auto
  have nx: "b_next (blocks s b) \<noteq> None"
    by (rule path_next[OF Cons.prems(1,2)]) simp
  from Cons.prems have nu: "\<not> undefined_target s b" by simp
  have bb: "build_block_edges b c s = create_edges b (out_edges s b) c s"
    using nu nx by (intro build_block_edges_plan) simp_all
  show ?case
  proof (cases "create_edges b (out_edges s b) c s")
    case (Inl e)
    then show ?thesis using src ne bb
      by (subst build_edges_from.simps) (simp add: edge_plan_def ebind_def)
  next
    case (Inr s1)
    then have ce: "code_eq s s1" by (rule create_edges_code_eq)
    then have ex: "exit_block s1 = exit_block s" and nx1: "b_next (blocks s1 b) = b_next (blocks s b)"
      by (simp_all add: code_eq_def)
    have p1: "path s1 (b_next (blocks s1 b)) bs (exit_block s1)"
      using p by (simp add: code_eq_path[OF ce] ex nx1)
    have "\<forall>b \<in> set bs. \<not> undefined_target s1 b"
      using Cons.prems(3) by (simp add: code_eq_undefined[OF ce])
    from Cons.IH[OF p1 _ this] Cons.prems(2)
    have "build_edges_from (b_next (blocks s1 b)) c s1 = Some (create_all (edge_plan s1 bs) c s1)"
      by (simp add: ex)
    then show ?thesis using src ne bb Inr
      by (subst build_edges_from.simps)
         (simp add: edge_plan_def ebind_def code_eq_out_edges[OF ce])
  qed
qed

lemma build_edges_from_undefined:
  assumes "path s src bs (exit_block s)" "exit_block s \<noteq> None"
    "\<exists>b \<in> set bs. undefined_target s b"
  shows "build_edges_from src False s = Some (Inl JIT_RESULT_UNDEFINED_LABEL)"
  using assms
proof (induction bs arbitrary: src s)
  case Nil
  then show ?case by simp
next
  case (Cons b bs)
  from Cons.prems have src: "src = Some b" and ne: "src \<noteq> exit_block s"
    and p: "path s (b_next (blocks s b)) bs (exit_block s)" by auto
  show ?case
  proof (cases "undefined_target s b")
    case True
    then show ?thesis using src ne
      by (subst build_edges_from.simps) (simp add: build_block_edges_undefined)
  next
    case False
    have nx: "b_next (blocks s b) \<noteq> None"
      by (rule path_next[OF Cons.prems(1,2)]) simp
    have bb: "build_block_edges b False s = create_edges b (out_edges s b) False s"
      using False nx by (intro build_block_edges_plan) simp_all
    from create_edges_count_Inr obtain s1 where
      s1: "create_edges b (out_edges s b) False s = Inr s1" by blast
    then have ce: "code_eq s s1" by (rule create_edges_code_eq)
    then have ex: "exit_block s1 = exit_block s" and nx1: "b_next (blocks s1 b) = b_next (blocks s b)"
      by (simp_all add: code_eq_def)
    have p1: "path s1 (b_next (blocks s1 b)) bs (exit_block s1)"
      using p by (simp add: code_eq_path[OF ce] ex nx1)
    from Cons.prems(3) False have "\<exists>b \<in> set bs. undefined_target s1 b"
      by (simp add: code_eq_undefined[OF ce])
    from Cons.IH[OF p1 _ this] Cons.prems(2)
    have "build_edges_from (b_next (blocks s1 b)) False s1 = Some (Inl JIT_RESULT_UNDEFINED_LABEL)"
      by (simp add: ex)
    then show ?thesis using src ne bb s1
      by (subst build_edges_from.simps) simp
  qed
qed

lemma alloc_block_edges_code_eq: "alloc_block_edges b s = Inr s' \<Longrightarrow> code_eq s s'"
  by (auto simp: alloc_block_edges_def ebind_def code_eq_def upd_block_def split: if_splits)

lemma alloc_block_edges_error: "alloc_block_edges b s = Inl e \<Longrightarrow> e = JIT_RESULT_OUT_OF_MEMORY"
  by (auto simp: alloc_block_edges_def ebind_def split: if_splits)

lemma alloc_edges_from_result:
  assumes "alloc_edges_from p s = Some r"
  shows "case r of Inl e \<Rightarrow> e = JIT_RESULT_OUT_OF_MEMORY | Inr s' \<Rightarrow> code_eq s s'"
proof (rule alloc_edges_from.raw_induct[OF _ assms], goal_cases)
  case (1 alloc p s r)
  show ?case
  proof (cases p)
    case None
    with 1(2) show ?thesis by (auto simp: code_eq_refl)
  next
    case (Some b)
    show ?thesis
    proof (cases "alloc_block_edges b s")
      case (Inl e)
      with 1(2) Some show ?thesis by (auto dest: alloc_block_edges_error)
    next
      case (Inr s1)
      with 1(2) Some have "alloc (b_next (blocks s1 b)) s1 = Some r" by simp
      from 1(1)[OF this] alloc_block_edges_code_eq[OF Inr] show ?thesis
        by (auto split: sum.splits intro: code_eq_trans)
    qed
  qed
qed

lemma build_cfg_undefined_iff:
  assumes p: "path s (entry_block s) bs (exit_block s)" and ex: "exit_block s \<noteq> None"
  shows "(build_cfg s = Some (Inl JIT_RESULT_UNDEFINED_LABEL)) = (\<exists>b \<in> set bs. undefined_target s b)"
proof
  assume "\<exists>b \<in> set bs. undefined_target s b"
  from build_edges_from_undefined[OF p ex this]
  show "build_cfg s = Some (Inl JIT_RESULT_UNDEFINED_LABEL)"
    by (simp add: build_cfg_def build_edges_def obind_def)
next
  assume u: "build_cfg s = Some (Inl JIT_RESULT_UNDEFINED_LABEL)"
  show "\<exists>b \<in> set bs. undefined_target s b"
  proof (rule ccontr)
    assume "\<not> (\<exists>b \<in> set bs. undefined_target s b)"
    then have nu: "\<forall>b \<in> set bs. \<not> undefined_target s b" by blast
    from create_all_count_Inr obtain s1 where
      s1: "create_all (edge_plan s bs) False s = Inr s1" by blast
    have b1: "build_edges False s = Some (Inr s1)"
      using build_edges_from_plan[OF p ex nu, of False] s1 by (simp add: build_edges_def)
    have ce1: "code_eq s s1" using s1 by (rule create_all_code_eq)
    from u b1 have u2: "obind (alloc_edges s1) (build_edges True) = Some (Inl JIT_RESULT_UNDEFINED_LABEL)"
      by (simp add: build_cfg_def obind_def)
    then obtain r where r: "alloc_edges_from (entry_block s1) s1 = Some r"
      by (auto simp: obind_def alloc_edges_def split: option.splits)
    from alloc_edges_from_result[OF r] u2 r obtain s2 where
      s2: "r = Inr s2" and ce2: "code_eq s1 s2"
      by (cases r) (auto simp: obind_def alloc_edges_def)
    have ce: "code_eq s s2" using ce1 ce2 by (rule code_eq_trans)
    then have e2: "entry_block s2 = entry_block s" "exit_block s2 = exit_block s"
      by (simp_all add: code_eq_def)
    have p2: "path s2 (entry_block s2) bs (exit_block s2)"
      using p by (simp add: code_eq_path[OF ce] e2)
    have nu2: "\<forall>b \<in> set bs. \<not> undefined_target s2 b"
      using nu by (simp add: code_eq_undefined[OF ce])
    have "build_edges True s2 = Some (create_all (edge_plan s2 bs) True s2)"
      using build_edges_from_plan[OF p2 _ nu2, of True] ex by (simp add: build_edges_def e2)
    with u2 r s2 have "create_all (edge_plan s2 bs) True s2 = Inl JIT_RESULT_UNDEFINED_LABEL"
      by (simp add: obind_def alloc_edges_def)
    from create_all_error[OF this] show False by simp
  qed
qed

lemma create_flat_append:
  "create_flat (xs @ ys) c s = ebind (create_flat xs c s) (create_flat ys c)"
  by (induction xs arbitrary: s) (auto simp: ebind_def split: sum.splits)

lemma create_edges_flat: "create_edges src es c s = create_flat (map (Pair src) es) c s"
proof (induction es arbitrary: s)
  case Nil then show ?case by simp
next
  case (Cons a es)
  obtain fl d where a: "a = (fl, d)" by (cases a)
  show ?case by (simp add: a) (rule ebind_cong, rule Cons.IH)
qed

lemma create_all_flat: "create_all pl c s = create_flat (flat pl) c s"
proof (induction pl arbitrary: s)
  case Nil then show ?case by (simp add: flat_def)
next
  case (Cons a pl)
  obtain src es where a: "a = (src, es)" by (cases a)
  have "create_all (a # pl) c s = ebind (create_flat (map (Pair src) es) c s) (create_flat (flat pl) c)"
    by (simp add: a create_edges_flat) (rule ebind_cong, rule Cons.IH)
  then show ?case by (simp add: a flat_def create_flat_append)
qed

lemma counted_state_nil: "counted_state [] s = s"
  by (simp add: counted_state_def nsucc_def npred_def)

lemma counted_state_cons:
  "counted_state r (upd_block d (\<lambda>b. b\<lparr>num_preds := Suc (num_preds b)\<rparr>)
            (upd_block src (\<lambda>b. b\<lparr>num_succs := Suc (num_succs b)\<rparr>) s))
   = counted_state ((src, fl, d) # r) s"
  by (auto simp: counted_state_def upd_block_def nsucc_def npred_def fun_eq_iff)

lemma create_flat_count: "create_flat es False s = Inr (counted_state es s)"
proof (induction es arbitrary: s)
  case Nil then show ?case by (simp add: counted_state_nil)
next
  case (Cons a es)
  obtain src fl d where a: "a = (src, fl, d)" by (cases a)
  show ?case by (simp add: a create_edge_count ebind_Inr Cons.IH counted_state_cons)
qed

lemma allocd_alt:
  "allocd bl =
     (let b1 = (if num_succs bl = 0 then bl\<lparr>b_succs := []\<rparr>
                else bl\<lparr>b_succs := replicate (num_succs bl) 0, num_succs := 0\<rparr>)
      in if num_preds b1 = 0 then b1\<lparr>b_preds := []\<rparr>
         else b1\<lparr>b_preds := replicate (num_preds b1) 0, num_preds := 0\<rparr>)"
  by (cases bl) (simp add: allocd_def Let_def)

lemma alloc_block_edges_result:
  assumes "2 \<le> mem s"
  shows "\<exists>m. alloc_block_edges b s = Inr (s\<lparr>blocks := (blocks s)(b := allocd (blocks s b)), mem := m\<rparr>)
           \<and> m \<le> mem s \<and> mem s \<le> m + 2"
proof -
  have "alloc_block_edges b s =
      Inr (s\<lparr>blocks := (blocks s)(b := allocd (blocks s b)),
             mem := mem s - (if num_succs (blocks s b) = 0 then 0 else 1)
                          - (if num_preds (blocks s b) = 0 then 0 else 1)\<rparr>)"
    using assms by (auto simp: alloc_block_edges_def ebind_def upd_block_def allocd_alt Let_def)
  moreover have "mem s - (if num_succs (blocks s b) = 0 then 0 else 1)
                          - (if num_preds (blocks s b) = 0 then 0 else 1) \<le> mem s" by simp
  moreover have "mem s \<le> mem s - (if num_succs (blocks s b) = 0 then 0 else 1)
                          - (if num_preds (blocks s b) = 0 then 0 else 1) + 2"
    using assms by (cases "num_succs (blocks s b) = 0"; cases "num_preds (blocks s b) = 0") auto
  ultimately show ?thesis by blast
qed

lemma path_blocks_cong:
  "(\<And>b. b_next (blocks s' b) = b_next (blocks s b)) \<Longrightarrow> path s' p bs q = path s p bs q"
  by (induction bs arbitrary: p) simp_all

lemma alloc_edges_from_result_ok:
  assumes "path s p bs None" "distinct bs" "2 * length bs \<le> mem s"
  shows "\<exists>m. alloc_edges_from p s =
           Some (Inr (s\<lparr>blocks := \<lambda>b. if b \<in> set bs then allocd (blocks s b) else blocks s b,
                        mem := m\<rparr>))
         \<and> m \<le> mem s \<and> mem s \<le> m + 2 * length bs"
  using assms
proof (induction bs arbitrary: p s)
  case Nil
  then have "alloc_edges_from p s = Some (Inr s)" by (subst alloc_edges_from.simps) simp
  then show ?case by (intro exI[of _ "mem s"]) simp
next
  case (Cons b bs)
  from Cons.prems have p: "p = Some b" and pa: "path s (b_next (blocks s b)) bs None"
    and nin: "b \<notin> set bs" and d: "distinct bs" and m2: "2 \<le> mem s" by auto
  from alloc_block_edges_result[OF m2, of b] obtain m1 where
    ab: "alloc_block_edges b s = Inr (s\<lparr>blocks := (blocks s)(b := allocd (blocks s b)), mem := m1\<rparr>)"
    and m1: "m1 \<le> mem s" "mem s \<le> m1 + 2" by blast
  let ?s1 = "s\<lparr>blocks := (blocks s)(b := allocd (blocks s b)), mem := m1\<rparr>"
  have nx: "\<And>c. b_next (blocks ?s1 c) = b_next (blocks s c)" by (simp add: allocd_def)
  have pa1: "path ?s1 (b_next (blocks ?s1 b)) bs None"
    using pa by (simp only: nx path_blocks_cong[of ?s1 s, OF nx])
  have mm: "2 * length bs \<le> mem ?s1" using Cons.prems(3) m1 by simp
  from Cons.IH[OF pa1 d mm] obtain m where
    r: "alloc_edges_from (b_next (blocks ?s1 b)) ?s1 =
           Some (Inr (?s1\<lparr>blocks := \<lambda>c. if c \<in> set bs then allocd (blocks ?s1 c) else blocks ?s1 c,
                        mem := m\<rparr>))"
    and m: "m \<le> mem ?s1" "mem ?s1 \<le> m + 2 * length bs" by blast
  have eq: "?s1\<lparr>blocks := \<lambda>c. if c \<in> set bs then allocd (blocks ?s1 c) else blocks ?s1 c, mem := m\<rparr>
          = s\<lparr>blocks := \<lambda>c. if c \<in> set (b # bs) then allocd (blocks s c) else blocks s c, mem := m\<rparr>"
    using nin by (auto simp: fun_eq_iff)
  have "alloc_edges_from p s =
           Some (Inr (s\<lparr>blocks := \<lambda>c. if c \<in> set (b # bs) then allocd (blocks s c) else blocks s c,
                        mem := m\<rparr>))"
    using p ab r unfolding eq by (subst alloc_edges_from.simps) simp
  moreover have "m \<le> mem s" "mem s \<le> m + 2 * length (b # bs)" using m m1 by simp_all
  ultimately show ?case by blast
qed

lemma create_edge_create:
  assumes "0 < mem s"
    "num_succs (blocks s src) < length (b_succs (blocks s src))"
    "num_preds (blocks s d) < length (b_preds (blocks s d))"
  shows "\<exists>s'. create_edge src d fl True s = Inr s'
     \<and> next_edge s' = Suc (next_edge s) \<and> mem s' = mem s - 1
     \<and> edges s' = (edges s)(next_edge s := \<lparr>e_src = src, e_dst = d, e_flags = fl\<rparr>)
     \<and> (\<forall>b. num_succs (blocks s' b) = num_succs (blocks s b) + (if b = src then 1 else 0)
           \<and> num_preds (blocks s' b) = num_preds (blocks s b) + (if b = d then 1 else 0)
           \<and> b_succs (blocks s' b) =
               (if b = src then (b_succs (blocks s b))[num_succs (blocks s b) := next_edge s]
                else b_succs (blocks s b))
           \<and> b_preds (blocks s' b) =
               (if b = d then (b_preds (blocks s b))[num_preds (blocks s b) := next_edge s]
                else b_preds (blocks s b)))"
  using assms by (simp add: create_edge_def ebind_def upd_block_def Let_def)

lemma take_Suc_update: "n < length xs \<Longrightarrow> take (Suc n) (xs[n := e]) = take n xs @ [e]"
  by (simp add: take_Suc_conv_app_nth)

lemma nsucc_cons: "nsucc ((src, fl, d) # r) b = (if src = b then 1 else 0) + nsucc r b"
  by (simp add: nsucc_def)

lemma npred_cons: "npred ((src, fl, d) # r) b = (if d = b then 1 else 0) + npred r b"
  by (simp add: npred_def)

lemma create_flat_create:
  assumes "\<forall>b. 0 < nsucc es b \<longrightarrow> num_succs (blocks s b) + nsucc es b \<le> length (b_succs (blocks s b))"
    "\<forall>b. 0 < npred es b \<longrightarrow> num_preds (blocks s b) + npred es b \<le> length (b_preds (blocks s b))"
    "length es \<le> mem s"
  shows "\<exists>s'. create_flat es True s = Inr s' \<and> next_edge s' = next_edge s + length es
     \<and> (\<forall>k < length es. edges s' (next_edge s + k) = edge_of (es ! k))
     \<and> (\<forall>e < next_edge s. edges s' e = edges s e)
     \<and> (\<forall>b. num_succs (blocks s' b) = num_succs (blocks s b) + nsucc es b
           \<and> num_preds (blocks s' b) = num_preds (blocks s b) + npred es b
           \<and> length (b_succs (blocks s' b)) = length (b_succs (blocks s b))
           \<and> length (b_preds (blocks s' b)) = length (b_preds (blocks s b))
           \<and> take (num_succs (blocks s' b)) (b_succs (blocks s' b))
               = take (num_succs (blocks s b)) (b_succs (blocks s b)) @ new_succs es b (next_edge s))"
  using assms
proof (induction es arbitrary: s)
  case Nil
  then show ?case by (simp add: nsucc_def npred_def)
next
  case (Cons t r)
  obtain src fl d where t: "t = (src, fl, d)" by (cases t)
  have m: "0 < mem s" using Cons.prems(3) by simp
  have a: "num_succs (blocks s src) < length (b_succs (blocks s src))"
    using Cons.prems(1)[rule_format, of src] by (simp add: t nsucc_cons)
  have b: "num_preds (blocks s d) < length (b_preds (blocks s d))"
    using Cons.prems(2)[rule_format, of d] by (simp add: t npred_cons)
  from create_edge_create[OF m a b, of fl] obtain s1 where
    c1: "create_edge src d fl True s = Inr s1"
    and ne1: "next_edge s1 = Suc (next_edge s)" and m1: "mem s1 = mem s - 1"
    and ed1: "edges s1 = (edges s)(next_edge s := \<lparr>e_src = src, e_dst = d, e_flags = fl\<rparr>)"
    and bl1: "\<And>b. num_succs (blocks s1 b) = num_succs (blocks s b) + (if b = src then 1 else 0)"
       "\<And>b. num_preds (blocks s1 b) = num_preds (blocks s b) + (if b = d then 1 else 0)"
       "\<And>b. b_succs (blocks s1 b) =
               (if b = src then (b_succs (blocks s b))[num_succs (blocks s b) := next_edge s]
                else b_succs (blocks s b))"
       "\<And>b. b_preds (blocks s1 b) =
               (if b = d then (b_preds (blocks s b))[num_preds (blocks s b) := next_edge s]
                else b_preds (blocks s b))"
    by blast
  have i1: "\<forall>b. 0 < nsucc r b \<longrightarrow> num_succs (blocks s1 b) + nsucc r b \<le> length (b_succs (blocks s1 b))"
  proof (intro allI impI)
    fix b assume "0 < nsucc r b"
    then have "0 < nsucc (t # r) b" by (simp add: t nsucc_cons)
    from Cons.prems(1)[rule_format, OF this]
    show "num_succs (blocks s1 b) + nsucc r b \<le> length (b_succs (blocks s1 b))"
      by (cases "b = src") (simp_all add: bl1 t nsucc_cons)
  qed
  have i2: "\<forall>b. 0 < npred r b \<longrightarrow> num_preds (blocks s1 b) + npred r b \<le> length (b_preds (blocks s1 b))"
  proof (intro allI impI)
    fix b assume "0 < npred r b"
    then have "0 < npred (t # r) b" by (simp add: t npred_cons)
    from Cons.prems(2)[rule_format, OF this]
    show "num_preds (blocks s1 b) + npred r b \<le> length (b_preds (blocks s1 b))"
      by (cases "b = d") (simp_all add: bl1 t npred_cons)
  qed
  have i3: "length r \<le> mem s1" using Cons.prems(3) m1 by simp
  from Cons.IH[OF i1 i2 i3] obtain s' where
    cf: "create_flat r True s1 = Inr s'"
    and ne: "next_edge s' = next_edge s1 + length r"
    and ed: "\<forall>k < length r. edges s' (next_edge s1 + k) = edge_of (r ! k)"
    and old: "\<forall>e < next_edge s1. edges s' e = edges s1 e"
    and bl: "\<And>b. num_succs (blocks s' b) = num_succs (blocks s1 b) + nsucc r b"
      "\<And>b. num_preds (blocks s' b) = num_preds (blocks s1 b) + npred r b"
      "\<And>b. length (b_succs (blocks s' b)) = length (b_succs (blocks s1 b))"
      "\<And>b. length (b_preds (blocks s' b)) = length (b_preds (blocks s1 b))"
      "\<And>b. take (num_succs (blocks s' b)) (b_succs (blocks s' b))
               = take (num_succs (blocks s1 b)) (b_succs (blocks s1 b)) @ new_succs r b (next_edge s1)"
    by blast
  have r1: "create_flat (t # r) True s = Inr s'" using c1 cf by (simp add: t ebind_Inr)
  have r2: "next_edge s' = next_edge s + length (t # r)" using ne ne1 by simp
  have r3: "\<forall>k < length (t # r). edges s' (next_edge s + k) = edge_of ((t # r) ! k)"
  proof (intro allI impI)
    fix k assume k: "k < length (t # r)"
    show "edges s' (next_edge s + k) = edge_of ((t # r) ! k)"
    proof (cases k)
      case 0
      have "edges s' (next_edge s) = edges s1 (next_edge s)" using old ne1 by simp
      then show ?thesis using 0 ed1 by (simp add: t edge_of_def)
    next
      case (Suc j)
      with k have "j < length r" by simp
      with ed have "edges s' (next_edge s1 + j) = edge_of (r ! j)" by blast
      then show ?thesis using Suc ne1 by simp
    qed
  qed
  have r4: "\<forall>e < next_edge s. edges s' e = edges s e"
  proof (intro allI impI)
    fix e assume e: "e < next_edge s"
    then have "edges s' e = edges s1 e" using old ne1 by simp
    then show "edges s' e = edges s e" using e ed1 by simp
  qed
  have r5: "num_succs (blocks s' b) = num_succs (blocks s b) + nsucc (t # r) b"
    "num_preds (blocks s' b) = num_preds (blocks s b) + npred (t # r) b"
    "length (b_succs (blocks s' b)) = length (b_succs (blocks s b))"
    "length (b_preds (blocks s' b)) = length (b_preds (blocks s b))" for b
    by (auto simp: bl bl1 t nsucc_cons npred_cons)
  have r6: "take (num_succs (blocks s' b)) (b_succs (blocks s' b))
               = take (num_succs (blocks s b)) (b_succs (blocks s b)) @ new_succs (t # r) b (next_edge s)"
    for b
  proof (cases "b = src")
    case True
    have "take (num_succs (blocks s1 b)) (b_succs (blocks s1 b))
          = take (num_succs (blocks s b)) (b_succs (blocks s b)) @ [next_edge s]"
      using a True by (simp add: bl1 take_Suc_update)
    then show ?thesis using True by (simp add: bl(5) t ne1)
  next
    case False
    then show ?thesis by (simp add: bl(5) bl1 t ne1)
  qed
  from r1 r2 r3 r4 r5 r6 show ?case by blast
qed

lemma new_succs_edges:
  assumes "\<forall>k < length es. edges s' (n + k) = edge_of (es ! k)"
  shows "map (edges s') (new_succs es b n) = map edge_of (filter (\<lambda>t. fst t = b) es)"
  using assms
proof (induction es arbitrary: n)
  case Nil then show ?case by simp
next
  case (Cons t r)
  obtain src fl d where t: "t = (src, fl, d)" by (cases t)
  from Cons.prems have h0: "edges s' n = edge_of t" by force
  have "\<forall>k < length r. edges s' (Suc n + k) = edge_of (r ! k)"
  proof (intro allI impI)
    fix k assume "k < length r"
    then have "Suc k < length (t # r)" by simp
    with Cons.prems have "edges s' (n + Suc k) = edge_of ((t # r) ! Suc k)" by blast
    then show "edges s' (Suc n + k) = edge_of (r ! k)" by simp
  qed
  from Cons.IH[OF this] h0 show ?case by (simp add: t)
qed

lemma path_append: "path s p bs q \<Longrightarrow> path s q cs None \<Longrightarrow> path s p (bs @ cs) None"
  by (induction bs arbitrary: p) auto

lemma flat_edge_plan_cons:
  "flat (edge_plan s (a # bs)) = map (Pair a) (out_edges s a) @ flat (edge_plan s bs)"
  by (simp add: flat_def edge_plan_def)

lemma flat_edge_plan_nil: "flat (edge_plan s []) = []"
  by (simp add: flat_def edge_plan_def)

lemma flat_edge_plan_mem:
  "t \<in> set (flat (edge_plan s bs)) \<Longrightarrow> fst t \<in> set bs \<and> snd t \<in> set (out_edges s (fst t))"
  by (induction bs) (auto simp: flat_edge_plan_cons flat_edge_plan_nil)

lemma filter_flat:
  "distinct bs \<Longrightarrow> filter (\<lambda>t. fst t = b) (flat (edge_plan s bs))
     = (if b \<in> set bs then map (Pair b) (out_edges s b) else [])"
proof (induction bs)
  case Nil then show ?case by (simp add: flat_edge_plan_nil)
next
  case (Cons a bs)
  have f: "filter (\<lambda>t. fst t = b) (map (Pair a) es) = (if a = b then map (Pair a) es else [])" for es
    by (induction es) auto
  from Cons show ?case by (auto simp: flat_edge_plan_cons f)
qed

lemma length_flat: "length (flat (edge_plan s bs)) = sum_list (map (\<lambda>b. length (out_edges s b)) bs)"
  by (induction bs) (simp_all add: flat_edge_plan_cons flat_edge_plan_nil)

lemma build_cfg_result:
  assumes ff: "fresh_function s bs x rest"
  shows "\<exists>s'. build_cfg s = Some (Inr s') \<and> code_eq s s'
     \<and> (\<forall>b \<in> set bs. num_succs (blocks s' b) = length (out_edges s b)
           \<and> map (\<lambda>e. (e_src (edges s' e), e_flags (edges s' e), e_dst (edges s' e)))
                 (b_succs (blocks s' b)) = map (Pair b) (out_edges s b))
     \<and> (\<forall>b. b \<notin> set bs \<longrightarrow> num_succs (blocks s' b) = 0)"
proof -
  let ?all = "bs @ x # rest"
  let ?es = "flat (edge_plan s bs)"
  from ff have ex: "exit_block s = Some x" and p: "path s (entry_block s) bs (exit_block s)"
    and px: "path s (Some x) (x # rest) None" and dist: "distinct ?all"
    and zero: "\<forall>b. num_succs (blocks s b) = 0 \<and> num_preds (blocks s b) = 0"
    and tg: "\<forall>b \<in> set bs. \<forall>e \<in> set (out_edges s b). snd e \<in> set ?all"
    and nu: "\<forall>b \<in> set bs. \<not> undefined_target s b"
    and mm: "2 * length ?all + length ?es \<le> mem s"
    by (simp_all add: fresh_function_def length_flat)
  have exn: "exit_block s \<noteq> None" using ex by simp
  have db: "distinct bs" using dist by simp
  \<comment> \<open>the counting pass\<close>
  define s1 where "s1 = counted_state ?es s"
  have b1: "build_edges False s = Some (Inr s1)"
    using build_edges_from_plan[OF p exn nu, of False]
    by (simp add: build_edges_def create_all_flat create_flat_count s1_def)
  have "create_all (edge_plan s bs) False s = Inr s1"
    by (simp add: create_all_flat create_flat_count s1_def)
  then have ce1: "code_eq s s1" by (rule create_all_code_eq)
  have e1: "entry_block s1 = entry_block s" "mem s1 = mem s"
    by (simp_all add: s1_def counted_state_def)
  \<comment> \<open>the allocation\<close>
  have pall: "path s (entry_block s) ?all None"
    using p px unfolding ex by (rule path_append)
  have pall1: "path s1 (entry_block s1) ?all None"
    using pall by (simp only: code_eq_path[OF ce1] e1)
  have m1: "2 * length ?all \<le> mem s1" using mm unfolding e1 by simp
  from alloc_edges_from_result_ok[OF pall1 dist m1] obtain m where
    al: "alloc_edges s1 =
           Some (Inr (s1\<lparr>blocks := \<lambda>b. if b \<in> set ?all then allocd (blocks s1 b) else blocks s1 b,
                        mem := m\<rparr>))"
    and mb: "mem s1 \<le> m + 2 * length ?all"
    unfolding alloc_edges_def by blast
  define s2 where
    "s2 = s1\<lparr>blocks := \<lambda>b. if b \<in> set ?all then allocd (blocks s1 b) else blocks s1 b,
                        mem := m\<rparr>"
  have al2: "alloc_edges s1 = Some (Inr s2)" using al by (simp only: s2_def)
  have ce12: "code_eq s1 s2" by (simp add: code_eq_def allocd_def s2_def)
  have ce2: "code_eq s s2" using ce1 ce12 by (rule code_eq_trans)
  have s2b: "num_succs (blocks s2 b) = 0 \<and> length (b_succs (blocks s2 b)) = nsucc ?es b
       \<and> num_preds (blocks s2 b) = 0 \<and> length (b_preds (blocks s2 b)) = npred ?es b
       \<and> b_succs (blocks s2 b) = replicate (nsucc ?es b) 0"
    if "b \<in> set ?all" for b
  proof -
    from that zero have "num_succs (blocks s b) = 0" "num_preds (blocks s b) = 0" by blast+
    then show ?thesis using that by (simp add: allocd_def counted_state_def s2_def s1_def)
  qed
  \<comment> \<open>the creating pass\<close>
  have i1: "\<forall>b. 0 < nsucc ?es b \<longrightarrow>
      num_succs (blocks s2 b) + nsucc ?es b \<le> length (b_succs (blocks s2 b))"
  proof (intro allI impI)
    fix b assume "0 < nsucc ?es b"
    then have "b \<in> set bs" using filter_flat[OF db, of b s] by (auto simp: nsucc_def split: if_splits)
    then have "b \<in> set ?all" by simp
    from s2b[OF this]
    show "num_succs (blocks s2 b) + nsucc ?es b \<le> length (b_succs (blocks s2 b))" by simp
  qed
  have i2: "\<forall>b. 0 < npred ?es b \<longrightarrow>
      num_preds (blocks s2 b) + npred ?es b \<le> length (b_preds (blocks s2 b))"
  proof (intro allI impI)
    fix b assume "0 < npred ?es b"
    then obtain t where t: "t \<in> set ?es" "snd (snd t) = b"
      by (auto simp: npred_def filter_empty_conv length_greater_0_conv)
    from flat_edge_plan_mem[OF t(1)] tg t(2) have "b \<in> set ?all" by blast
    from s2b[OF this]
    show "num_preds (blocks s2 b) + npred ?es b \<le> length (b_preds (blocks s2 b))" by simp
  qed
  have ms2: "mem s2 = m" by (simp add: s2_def)
  have i3: "length ?es \<le> mem s2" using mm mb unfolding ms2 e1 by simp
  from create_flat_create[OF i1 i2 i3] obtain s' where
    cf: "create_flat ?es True s2 = Inr s'"
    and ed: "\<forall>k < length ?es. edges s' (next_edge s2 + k) = edge_of (?es ! k)"
    and ns: "\<And>b. num_succs (blocks s' b) = num_succs (blocks s2 b) + nsucc ?es b"
    and ls: "\<And>b. length (b_succs (blocks s' b)) = length (b_succs (blocks s2 b))"
    and tk: "\<And>b. take (num_succs (blocks s' b)) (b_succs (blocks s' b))
               = take (num_succs (blocks s2 b)) (b_succs (blocks s2 b))
                 @ new_succs ?es b (next_edge s2)"
    by blast
  have e2: "entry_block s2 = entry_block s" "exit_block s2 = exit_block s"
    using ce2 by (simp_all add: code_eq_def)
  have p2: "path s2 (entry_block s2) bs (exit_block s2)"
    using p by (simp only: code_eq_path[OF ce2] e2)
  have nu2: "\<forall>b \<in> set bs. \<not> undefined_target s2 b"
    using nu by (simp only: code_eq_undefined[OF ce2])
  have ex2: "exit_block s2 \<noteq> None" using ex unfolding e2 by simp
  have "build_edges_from (entry_block s2) True s2 = Some (create_all (edge_plan s2 bs) True s2)"
    using p2 ex2 nu2 by (rule build_edges_from_plan)
  then have b2: "build_edges True s2 = Some (Inr s')"
    by (simp only: build_edges_def create_all_flat code_eq_edge_plan[OF ce2] cf)
  have bc: "build_cfg s = Some (Inr s')"
    using b1 al2 b2 by (simp add: build_cfg_def obind_def)
  have "create_all (edge_plan s bs) True s2 = Inr s'" using cf by (simp only: create_all_flat)
  then have "code_eq s2 s'" by (rule create_all_code_eq)
  with ce2 have ce: "code_eq s s'" by (rule code_eq_trans)
  have res: "num_succs (blocks s' b) = length (out_edges s b)
           \<and> map (\<lambda>e. (e_src (edges s' e), e_flags (edges s' e), e_dst (edges s' e)))
                 (b_succs (blocks s' b)) = map (Pair b) (out_edges s b)"
    if b: "b \<in> set bs" for b
  proof -
    from b have ball: "b \<in> set ?all" by simp
    have fl: "filter (\<lambda>t. fst t = b) ?es = map (Pair b) (out_edges s b)"
      using filter_flat[OF db, of b s] b by simp
    then have nsb: "nsucc ?es b = length (out_edges s b)" by (simp add: nsucc_def)
    have n: "num_succs (blocks s' b) = length (out_edges s b)"
      using ns[of b] s2b[OF ball] nsb by simp
    have l: "length (b_succs (blocks s' b)) = length (out_edges s b)"
      using ls[of b] s2b[OF ball] nsb by simp
    have "b_succs (blocks s' b) = new_succs ?es b (next_edge s2)"
      using tk[of b] n l s2b[OF ball] by simp
    then have "map (edges s') (b_succs (blocks s' b)) = map edge_of (map (Pair b) (out_edges s b))"
      using new_succs_edges[OF ed, of b] fl by simp
    then have "map ((\<lambda>e. (e_src e, e_flags e, e_dst e)) \<circ> edges s') (b_succs (blocks s' b))
        = map ((\<lambda>e. (e_src e, e_flags e, e_dst e)) \<circ> edge_of) (map (Pair b) (out_edges s b))"
      by (simp only: map_map[symmetric])
    then have "map (\<lambda>e. (e_src (edges s' e), e_flags (edges s' e), e_dst (edges s' e)))
                 (b_succs (blocks s' b)) = map (Pair b) (out_edges s b)"
      by (simp add: comp_def edge_of_def)
    with n show ?thesis by blast
  qed
  have oth: "num_succs (blocks s' b) = 0" if b: "b \<notin> set bs" for b
  proof -
    have z: "nsucc ?es b = 0" using filter_flat[OF db, of b s] b by (simp add: nsucc_def)
    have "num_succs (blocks s2 b) = 0"
    proof (cases "b \<in> set ?all")
      case True
      from s2b[OF this] show ?thesis by simp
    next
      case False
      then have "blocks s2 b = blocks s1 b" by (simp add: s2_def)
      then show ?thesis using zero z by (simp add: s1_def counted_state_def)
    qed
    with ns[of b] z show ?thesis by simp
  qed
  from bc ce res oth show ?thesis by blast
qed

lemmas plan_defs = fresh_function_def out_edges_def explicit_edges_def target_edge_def
  undefined_target_def terminator_def

text \<open>
  C4.  When the live list runs from the entry block over the blocks \<open>bs\<close> to the exit
  block, \<open>build_cfg\<close> raises \<open>UNDEFINED_LABEL\<close> exactly when the last instruction of some
  block of \<open>bs\<close> is a \<open>BR\<close>, a conditional branch, \<open>CALL_FINALLY\<close> or \<open>CALL_FILTER\<close> whose
  \<open>dest\<close> has no block, or a \<open>JUMP_TABLE\<close> one of whose labels has no block.  On a fresh
  function \<open>build_cfg\<close> succeeds, and for a block ending in \<open>THROW\<close>, \<open>RETHROW\<close> or a call
  opcode while the catcher label has no block, the first successor edge is an
  \<open>EXCEPT\<close> edge from the block to the exit block.
\<close>

theorem build_cfg_undefined_label:
  assumes p: "path s (entry_block s) bs (exit_block s)" and ex: "exit_block s = Some x"
  shows "(build_cfg s = Some (Inl JIT_RESULT_UNDEFINED_LABEL))
           = (\<exists>b \<in> set bs. undefined_target s b)
     \<and> (fresh_function s bs x rest \<longrightarrow>
          (\<exists>s'. build_cfg s = Some (Inr s')
             \<and> (\<forall>b \<in> set bs.
                   (terminator s b = JIT_OP_THROW \<or> terminator s b = JIT_OP_RETHROW
                      \<or> is_call_op (terminator s b))
                   \<and> block_from_label s (catcher_label s) = None \<longrightarrow>
                   (\<exists>e es. b_succs (blocks s' b) = e # es \<and> e_src (edges s' e) = b
                      \<and> e_flags (edges s' e) = JIT_EDGE_EXCEPT \<and> e_dst (edges s' e) = x))))"
proof (intro conjI impI)
  from ex have "exit_block s \<noteq> None" by simp
  with p show "(build_cfg s = Some (Inl JIT_RESULT_UNDEFINED_LABEL))
           = (\<exists>b \<in> set bs. undefined_target s b)"
    by (rule build_cfg_undefined_iff)
next
  assume ff: "fresh_function s bs x rest"
  from build_cfg_result[OF ff] obtain s' where bc: "build_cfg s = Some (Inr s')"
    and res: "\<forall>b \<in> set bs.
        map (\<lambda>e. (e_src (edges s' e), e_flags (edges s' e), e_dst (edges s' e)))
            (b_succs (blocks s' b)) = map (Pair b) (out_edges s b)"
    by blast
  have "\<exists>e es. b_succs (blocks s' b) = e # es \<and> e_src (edges s' e) = b
                      \<and> e_flags (edges s' e) = JIT_EDGE_EXCEPT \<and> e_dst (edges s' e) = x"
    if b: "b \<in> set bs"
      and t: "terminator s b = JIT_OP_THROW \<or> terminator s b = JIT_OP_RETHROW
                \<or> is_call_op (terminator s b)"
      and c: "block_from_label s (catcher_label s) = None" for b
  proof -
    from t have "explicit_edges s b = [(JIT_EDGE_EXCEPT, x)]"
      using c ex
      by (auto simp: terminator_def explicit_edges_def target_edge_def is_call_op_def
            split: option.splits opcode.splits)
    then obtain r where "out_edges s b = (JIT_EDGE_EXCEPT, x) # r" by (simp add: out_edges_def)
    with res b have "map (\<lambda>e. (e_src (edges s' e), e_flags (edges s' e), e_dst (edges s' e)))
            (b_succs (blocks s' b)) = (b, JIT_EDGE_EXCEPT, x) # map (Pair b) r" by simp
    then show ?thesis by (cases "b_succs (blocks s' b)") auto
  qed
  with bc show "\<exists>s'. build_cfg s = Some (Inr s')
             \<and> (\<forall>b \<in> set bs.
                   (terminator s b = JIT_OP_THROW \<or> terminator s b = JIT_OP_RETHROW
                      \<or> is_call_op (terminator s b))
                   \<and> block_from_label s (catcher_label s) = None \<longrightarrow>
                   (\<exists>e es. b_succs (blocks s' b) = e # es \<and> e_src (edges s' e) = b
                      \<and> e_flags (edges s' e) = JIT_EDGE_EXCEPT \<and> e_dst (edges s' e) = x))"
    by blast
qed

lemma throw_example_fresh: "fresh_function throw_example [0, 1] 2 []"
  by (simp add: plan_defs throw_example_def build_defs)

theorem build_cfg_undefined_label_witness:
  "path throw_example (entry_block throw_example) [0, 1] (exit_block throw_example)
   \<and> exit_block throw_example = Some 2
   \<and> build_cfg throw_example \<noteq> Some (Inl JIT_RESULT_UNDEFINED_LABEL)
   \<and> (\<exists>s' e es. build_cfg throw_example = Some (Inr s') \<and> b_succs (blocks s' 1) = e # es
         \<and> e_flags (edges s' e) = JIT_EDGE_EXCEPT \<and> e_dst (edges s' e) = 2)
   \<and> path undefined_label_example (entry_block undefined_label_example) [0, 1]
        (exit_block undefined_label_example)
   \<and> build_cfg undefined_label_example = Some (Inl JIT_RESULT_UNDEFINED_LABEL)"
proof -
  have p: "path throw_example (entry_block throw_example) [0, 1] (exit_block throw_example)"
    and ex: "exit_block throw_example = Some 2"
    and nu: "\<not> (\<exists>b \<in> set [0, 1]. undefined_target throw_example b)"
    and t: "terminator throw_example 1 = JIT_OP_THROW"
    and c: "block_from_label throw_example (catcher_label throw_example) = None"
    by (simp_all add: plan_defs throw_example_def build_defs)
  have p2: "path undefined_label_example (entry_block undefined_label_example) [0, 1]
        (exit_block undefined_label_example)"
    and ex2: "exit_block undefined_label_example = Some 2"
    and u2: "\<exists>b \<in> set [0, 1]. undefined_target undefined_label_example b"
    by (simp_all add: plan_defs undefined_label_example_def build_defs)
  note a = build_cfg_undefined_label[OF p ex, of "[]"]
  note b = build_cfg_undefined_label[OF p2 ex2, of "[]"]
  from a nu have 1: "build_cfg throw_example \<noteq> Some (Inl JIT_RESULT_UNDEFINED_LABEL)" by blast
  from a throw_example_fresh t c
  have 2: "\<exists>s' e es. build_cfg throw_example = Some (Inr s') \<and> b_succs (blocks s' 1) = e # es
         \<and> e_flags (edges s' e) = JIT_EDGE_EXCEPT \<and> e_dst (edges s' e) = 2"
    by (auto simp del: One_nat_def)
  from b u2 have 3: "build_cfg undefined_label_example = Some (Inl JIT_RESULT_UNDEFINED_LABEL)"
    by blast
  from p ex 1 2 p2 3 show ?thesis by blast
qed

text \<open>
  C10.  For a block of a fresh function before the exit block whose instruction
  vector is empty, the opcode classified is \<open>NOP\<close>, the classification yields no
  explicit edge, and after \<open>build_cfg\<close> the successors of the block are exactly one
  \<open>FALLTHRU\<close> edge to the list successor when \<open>ends_in_dead\<close> is unset, and none
  otherwise.
\<close>

theorem empty_block_classified_as_nop:
  assumes ff: "fresh_function s bs x rest" and b: "b \<in> set bs"
    and em: "b_insns (blocks s b) = []"
  shows "terminator s b = JIT_OP_NOP \<and> classify b create s = Inr (s, None)
     \<and> (\<exists>s' n. build_cfg s = Some (Inr s') \<and> b_next (blocks s b) = Some n
           \<and> map (\<lambda>e. (e_src (edges s' e), e_flags (edges s' e), e_dst (edges s' e)))
                 (b_succs (blocks s' b))
               = (if ends_in_dead (blocks s b) then [] else [(b, JIT_EDGE_FALLTHRU, n)]))"
proof -
  have gl: "block_get_last (blocks s b) = None" using em by (simp add: block_get_last_def)
  then have t: "terminator s b = JIT_OP_NOP" by (simp add: terminator_def)
  have cl: "classify b create s = Inr (s, None)"
    using gl by (simp add: classify_def is_return_op_def is_cond_branch_op_def is_call_op_def)
  from ff have p: "path s (entry_block s) bs (exit_block s)" and ex: "exit_block s \<noteq> None"
    by (simp_all add: fresh_function_def)
  from path_next[OF p ex b] obtain n where n: "b_next (blocks s b) = Some n" by blast
  have oe: "out_edges s b = (if ends_in_dead (blocks s b) then [] else [(JIT_EDGE_FALLTHRU, n)])"
    using gl n by (simp add: out_edges_def explicit_edges_def target_edge_def)
  from build_cfg_result[OF ff] b obtain s' where bc: "build_cfg s = Some (Inr s')"
    and res: "map (\<lambda>e. (e_src (edges s' e), e_flags (edges s' e), e_dst (edges s' e)))
            (b_succs (blocks s' b)) = map (Pair b) (out_edges s b)"
    by blast
  from res oe have "map (\<lambda>e. (e_src (edges s' e), e_flags (edges s' e), e_dst (edges s' e)))
                 (b_succs (blocks s' b))
               = (if ends_in_dead (blocks s b) then [] else [(b, JIT_EDGE_FALLTHRU, n)])"
    by simp
  with t cl bc n show ?thesis by blast
qed

theorem empty_block_classified_as_nop_witness:
  "fresh_function throw_example [0, 1] 2 [] \<and> 0 \<in> set [0, 1::nat]
   \<and> b_insns (blocks throw_example 0) = []
   \<and> (\<exists>s' e. build_cfg throw_example = Some (Inr s') \<and> b_succs (blocks s' 0) = [e]
         \<and> e_flags (edges s' e) = JIT_EDGE_FALLTHRU \<and> e_dst (edges s' e) = 1)"
proof -
  have em: "b_insns (blocks throw_example 0) = []"
    and nd: "\<not> ends_in_dead (blocks throw_example 0)"
    and nx: "b_next (blocks throw_example 0) = Some 1"
    by (simp_all add: throw_example_def build_defs)
  have m: "0 \<in> set [0, 1::nat]" by simp
  from empty_block_classified_as_nop[OF throw_example_fresh m em, of False] nd nx
  obtain s' where bc: "build_cfg throw_example = Some (Inr s')"
    and r: "map (\<lambda>e. (e_src (edges s' e), e_flags (edges s' e), e_dst (edges s' e)))
                 (b_succs (blocks s' 0)) = [(0, JIT_EDGE_FALLTHRU, 1)]"
    by auto
  from r obtain e where "b_succs (blocks s' 0) = [e]" "e_flags (edges s' e) = JIT_EDGE_FALLTHRU"
    "e_dst (edges s' e) = 1" by (cases "b_succs (blocks s' 0)") auto
  with bc throw_example_fresh m em show ?thesis by blast
qed

section \<open>Dead-end consistency is established by the builder and kept by the cleaner\<close>

lemma shrinks_refl: "shrinks s s" by (simp add: shrinks_def)

lemma shrinks_trans: "shrinks s s' \<Longrightarrow> shrinks s' s'' \<Longrightarrow> shrinks s s''"
  unfolding shrinks_def by (metis subset_trans)

lemma shrinks_dead_end:
  "shrinks s s' \<Longrightarrow> dead_end_consistent s \<Longrightarrow> dead_end_consistent s'"
  unfolding shrinks_def dead_end_consistent_def by (metis subsetD)

lemma shrinks_owned: "shrinks s s' \<Longrightarrow> succs_owned s \<Longrightarrow> succs_owned s'"
  unfolding shrinks_def succs_owned_def by (metis subsetD)

lemma shrinks_upd_block:
  assumes "\<And>bl. b_succs (f bl) = b_succs bl \<and> num_succs (f bl) = num_succs bl
             \<and> ends_in_dead (f bl) = ends_in_dead bl"
  shows "shrinks s (upd_block b f s)"
  using assms by (simp add: shrinks_def succs_of_def upd_block_def)

lemma shrinks_fields:
  assumes "blocks s' = blocks s" "edges s' = edges s"
  shows "shrinks s s'"
  using assms by (simp add: shrinks_def succs_of_def)

lemma shrinks_bind_label: "shrinks s (bind_label block l s)"
  by (simp add: shrinks_def succs_of_def bind_label_def upd_block_def)

lemma shrinks_merge_labels:
  assumes "merge_labels s block label = Some r"
  shows "\<forall>s'. r = Inr s' \<longrightarrow> shrinks s s'"
proof (rule merge_labels.raw_induct[OF _ assms], goal_cases)
  case (1 ml s block label r)
  show ?case
  proof (cases label)
    case None
    with 1(2) show ?thesis by (auto simp: shrinks_refl)
  next
    case (Some l)
    show ?thesis
    proof (cases "l < max_label_info s")
      case True
      with 1(2) Some have "ml (bind_label block l s) block (li_alias (label_info s ! l)) = Some r"
        by simp
      from 1(1)[OF this] show ?thesis
        by (auto intro: shrinks_trans[OF shrinks_bind_label])
    next
      case False
      with 1(2) Some show ?thesis by auto
    qed
  qed
qed

lemma shrinks_attach: "attach_edge_dst e b s = Some s' \<Longrightarrow> shrinks s s'"
  by (auto simp: attach_edge_dst_def shrinks_def succs_of_def upd_block_def upd_edge_def
        split: if_splits)

lemma shrinks_detach_dst: "detach_edge_dst e s = Inr s' \<Longrightarrow> shrinks s s'"
  by (auto simp: detach_edge_dst_def shrinks_def succs_of_def upd_block_def Let_def
        split: if_splits)

lemma set_take_remove1: "set (take n (remove1 e xs)) \<subseteq> set xs"
  by (meson in_set_takeD notin_set_remove1 subsetI)

lemma shrinks_detach_src: "detach_edge_src e s = Inr s' \<Longrightarrow> shrinks s s'"
proof -
  assume a: "detach_edge_src e s = Inr s'"
  let ?b = "e_src (edges s e)"
  let ?xs = "take (num_succs (blocks s ?b)) (b_succs (blocks s ?b))"
  show ?thesis
  proof (cases "e \<in> set ?xs")
    case True
    with a have s': "s' = upd_block ?b
             (\<lambda>b. b\<lparr>b_succs := remove1 e ?xs, num_succs := num_succs b - 1\<rparr>) s"
      by (simp add: detach_edge_src_def Let_def)
    have "set (succs_of s' b) \<subseteq> set (succs_of s b)" for b
      using set_take_remove1[of "num_succs (blocks s ?b) - 1" e ?xs]
      by (simp add: s' succs_of_def upd_block_def)
    then show ?thesis by (simp add: shrinks_def) (simp add: s' upd_block_def)
  next
    case False
    with a have "s' = s" by (simp add: detach_edge_src_def Let_def split: if_splits)
    then show ?thesis by (simp add: shrinks_refl)
  qed
qed

lemma shrinks_pool_dealloc: "shrinks s (pool_dealloc e s)"
  by (simp add: shrinks_def succs_of_def pool_dealloc_def)

lemma shrinks_delete_edge:
  assumes "delete_edge e s = Inr s'"
  shows "shrinks s s'"
proof -
  from assms obtain s1 s2 where a: "detach_edge_src e s = Inr s1"
    and b: "detach_edge_dst e s1 = Inr s2" and c: "s' = pool_dealloc e s2"
    by (auto simp: delete_edge_def ebind_def split: sum.splits)
  have "shrinks s s2"
    using shrinks_detach_src[OF a] shrinks_detach_dst[OF b] by (rule shrinks_trans)
  then show ?thesis unfolding c using shrinks_pool_dealloc by (rule shrinks_trans)
qed

lemma shrinks_delete_block: "shrinks s (delete_block b s)"
  by (simp add: shrinks_def succs_of_def delete_block_def upd_block_def Let_def)

lemma shrinks_block_detach:
  assumes "block_detach f l s = Inr s'"
  shows "shrinks s s'"
proof -
  from assms obtain n p where
    s': "s' = upd_block p (\<lambda>b. b\<lparr>b_next := b_next
               (blocks (upd_block n (\<lambda>b. b\<lparr>b_prev := b_prev (blocks s f)\<rparr>) s) l)\<rparr>)
            (upd_block n (\<lambda>b. b\<lparr>b_prev := b_prev (blocks s f)\<rparr>) s)"
    by (auto simp: block_detach_def Let_def split: option.splits)
  show ?thesis unfolding s'
    by (rule shrinks_trans[OF shrinks_upd_block shrinks_upd_block]) simp_all
qed

lemma shrinks_set_last_opcode:
  assumes "set_last_opcode b opc s = Inr s'"
  shows "shrinks s s'"
proof -
  from assms obtain insn where
    s': "s' = upd_block b (\<lambda>bl. bl\<lparr>b_insns := butlast (b_insns bl) @ [insn\<lparr>opcode := opc\<rparr>]\<rparr>) s"
    by (auto simp: set_last_opcode_def split: option.splits)
  show ?thesis unfolding s' by (rule shrinks_upd_block) simp
qed

lemma shrinks_merge_preds:
  assumes "merge_preds block succ_block index changed fe pe s = Some r"
  shows "\<forall>c f p s'. r = Inr (c, f, p, s') \<longrightarrow> shrinks s s'"
proof (rule merge_preds.raw_induct[OF _ assms], goal_cases)
  case (1 mp block succ_block index changed fe pe s r)
  show ?case
  proof (intro allI impI)
    fix c f p s' assume r: "r = Inr (c, f, p, s')"
    show "shrinks s s'"
    proof (cases "index < num_preds (blocks s block)")
      case False
      with 1(2) r show ?thesis by (simp add: shrinks_refl)
    next
      case True
      note lt = this
      show ?thesis
      proof (cases "index < length (b_preds (blocks s block))")
        case False
        with 1(2) lt r show ?thesis by simp
      next
        case True
        let ?pe = "b_preds (blocks s block) ! index"
        show ?thesis
        proof (cases "e_flags (edges s ?pe) = JIT_EDGE_FALLTHRU")
          case True
          with 1(2) lt \<open>index < length (b_preds (blocks s block))\<close>
          have "mp block succ_block (Suc index) changed (Some ?pe) (Some ?pe) s = Some r"
            by (simp add: Let_def)
          from 1(1)[OF this] r show ?thesis by blast
        next
          case False
          show ?thesis
          proof (cases "attach_edge_dst ?pe succ_block s")
            case None
            with 1(2) lt \<open>index < length (b_preds (blocks s block))\<close> False r
            show ?thesis by (simp add: Let_def)
          next
            case (Some s1)
            with 1(2) lt \<open>index < length (b_preds (blocks s block))\<close> False
            have "mp block succ_block (Suc index) True fe (Some ?pe) s1 = Some r"
              by (simp add: Let_def)
            from 1(1)[OF this] r have "shrinks s1 s'" by blast
            with shrinks_attach[OF Some] show ?thesis by (rule shrinks_trans)
          qed
        qed
      qed
    qed
  qed
qed

lemma shrinks_merge_empty_tail:
  assumes "merge_empty_tail block succ_edge succ_block (c, fe, pe, s) = Inr (c', s')"
  shows "shrinks s s'"
proof -
  from assms obtain c1 f1 s1 where
    st1: "(case fe of
           None \<Rightarrow> Inr (c, None, s)
         | Some fe \<Rightarrow>
             if e_flags (edges s succ_edge) = JIT_EDGE_FALLTHRU then
               (case pe of
                  None \<Rightarrow> Inl MEMORY_FAULT
                | Some pe \<Rightarrow>
                    (case attach_edge_dst pe succ_block s of
                       None \<Rightarrow> Inl JIT_RESULT_OUT_OF_MEMORY
                     | Some s' \<Rightarrow> Inr (True, None, s')))
             else if num_preds (blocks s block) > 1 then
               Inr (c, Some fe,
                    upd_block block (\<lambda>b. b\<lparr>num_preds := 1, b_preds := [fe]\<rparr>) s)
             else Inr (c, Some fe, s)) = Inr (c1, f1, s1)"
    and st2: "(if f1 = None then
             ebind (detach_edge_dst succ_edge s1) (\<lambda>s2.
             ebind (block_detach block block (pool_dealloc succ_edge s2)) (\<lambda>s3.
               Inr (c1, delete_block block s3)))
           else Inr (c1, s1)) = Inr (c', s')"
    by (auto simp: merge_empty_tail_def ebind_def split: sum.splits prod.splits)
  have a: "shrinks s s1"
    using st1
    by (auto split: option.splits if_splits
          intro: shrinks_refl shrinks_attach shrinks_upd_block)
  have b: "shrinks s1 s'"
  proof (cases "f1 = None")
    case False
    with st2 show ?thesis by (simp add: shrinks_refl)
  next
    case True
    with st2 obtain s2 s3 where d: "detach_edge_dst succ_edge s1 = Inr s2"
      and bd: "block_detach block block (pool_dealloc succ_edge s2) = Inr s3"
      and e: "s' = delete_block block s3"
      by (auto simp: ebind_def split: sum.splits)
    have "shrinks s1 (pool_dealloc succ_edge s2)"
      using shrinks_detach_dst[OF d] shrinks_pool_dealloc by (rule shrinks_trans)
    then have "shrinks s1 s3" using shrinks_block_detach[OF bd] by (rule shrinks_trans)
    then show ?thesis unfolding e using shrinks_delete_block by (rule shrinks_trans)
  qed
  from a b show ?thesis by (rule shrinks_trans)
qed

lemma shrinks_merge_empty:
  assumes "merge_empty block changed s = Some (Inr (c', s'))"
  shows "shrinks s s'"
proof -
  from assms obtain succ_edge es where se: "b_succs (blocks s block) = succ_edge # es"
    by (cases "b_succs (blocks s block)") (auto simp: merge_empty_def)
  let ?sb = "e_dst (edges s succ_edge)"
  from assms se obtain s1 where ml: "merge_labels s ?sb (b_label (blocks s block)) = Some (Inr s1)"
    and r1: "obind (merge_preds block ?sb 0 changed None None s1)
               (\<lambda>r. Some (merge_empty_tail block succ_edge ?sb r)) = Some (Inr (c', s'))"
    by (auto simp: merge_empty_def obind_def Let_def split: option.splits sum.splits)
  from r1 obtain r where mp: "merge_preds block ?sb 0 changed None None s1 = Some (Inr r)"
    and mt: "merge_empty_tail block succ_edge ?sb r = Inr (c', s')"
    by (auto simp: obind_def split: option.splits sum.splits)
  obtain c f p s2 where r: "r = (c, f, p, s2)" by (cases r)
  from shrinks_merge_labels[OF ml] have "shrinks s s1" by blast
  moreover from shrinks_merge_preds[OF mp] r have "shrinks s1 s2" by blast
  moreover from mt r have "shrinks s2 s'" by (auto intro: shrinks_merge_empty_tail)
  ultimately show ?thesis by (blast intro: shrinks_trans)
qed

lemma shrinks_detach_all:
  assumes d: "\<And>e s s'. d e s = Inr s' \<Longrightarrow> shrinks s s'"
  shows "detach_all d es s = Inr s' \<Longrightarrow> shrinks s s'"
proof (induction es arbitrary: s)
  case Nil then show ?case by (simp add: shrinks_refl)
next
  case (Cons e es)
  from Cons.prems obtain s1 where a: "d e s = Inr s1"
    and b: "detach_all d es (pool_dealloc e s1) = Inr s'"
    by (auto simp: ebind_def split: sum.splits)
  have "shrinks s (pool_dealloc e s1)"
    using d[OF a] shrinks_pool_dealloc by (rule shrinks_trans)
  with Cons.IH[OF b] show ?case by (blast intro: shrinks_trans)
qed

lemma shrinks_eliminate_block:
  assumes "eliminate_block block s = Inr s'"
  shows "shrinks s s'"
proof -
  from assms obtain s1 ss s2 ps s3 where a: "block_detach block block s = Inr s1"
    and b: "detach_all detach_edge_dst ss s1 = Inr s2"
    and c: "detach_all detach_edge_src ps s2 = Inr s3"
    and e: "s' = delete_block block s3"
    by (auto simp: eliminate_block_def ebind_def split: sum.splits)
  have "shrinks s s2"
    using shrinks_block_detach[OF a] shrinks_detach_all[OF shrinks_detach_dst b]
    by (rule shrinks_trans)
  then have "shrinks s s3"
    using shrinks_detach_all[OF shrinks_detach_src c] by (rule shrinks_trans)
  then show ?thesis unfolding e using shrinks_delete_block by (rule shrinks_trans)
qed

lemma shrinks_visited: "shrinks s (upd_block b (\<lambda>bl. bl\<lparr>visited := v\<rparr>) s)"
  by (rule shrinks_upd_block) simp

lemma shrinks_eliminate_unreachable_from:
  assumes "eliminate_unreachable_from p s = Some r"
  shows "\<forall>s'. r = Inr s' \<longrightarrow> shrinks s s'"
proof (rule eliminate_unreachable_from.raw_induct[OF _ assms], goal_cases)
  case (1 eu p s r)
  show ?case
  proof (intro allI impI)
    fix s' assume r: "r = Inr s'"
    show "shrinks s s'"
    proof (cases "p = exit_block s")
      case True
      with 1(2) r show ?thesis by (simp add: shrinks_refl)
    next
      case False
      note ne = this
      show ?thesis
      proof (cases p)
        case None
        with 1(2) ne r show ?thesis by simp
      next
        case (Some b)
        show ?thesis
        proof (cases "visited (blocks s b)")
          case True
          with 1(2) ne Some
          have "eu (b_next (blocks s b)) (upd_block b (\<lambda>bl. bl\<lparr>visited := False\<rparr>) s) = Some r"
            by (simp add: Let_def)
          from 1(1)[OF this] r shrinks_visited[of s b False] show ?thesis
            by (blast intro: shrinks_trans)
        next
          case False
          show ?thesis
          proof (cases "eliminate_block b s")
            case (Inl e)
            with 1(2) ne Some False r show ?thesis by (simp add: Let_def)
          next
            case (Inr s1)
            with 1(2) ne Some False have "eu (b_next (blocks s b)) s1 = Some r"
              by (simp add: Let_def)
            from 1(1)[OF this] r shrinks_eliminate_block[OF Inr] show ?thesis
              by (blast intro: shrinks_trans)
          qed
        qed
      qed
    qed
  qed
qed

lemma shrinks_clear_visited_from:
  assumes "clear_visited_from p s = Some s'"
  shows "shrinks s s'"
proof (rule clear_visited_from.raw_induct[OF _ assms], goal_cases)
  case (1 cv p s s')
  show ?case
  proof (cases p)
    case None
    with 1(2) show ?thesis by (simp add: shrinks_refl)
  next
    case (Some b)
    with 1(2) have "cv (b_next (blocks s b)) (upd_block b (\<lambda>bl. bl\<lparr>visited := False\<rparr>) s) = Some s'"
      by simp
    from 1(1)[OF this] shrinks_visited[of s b False] show ?thesis by (blast intro: shrinks_trans)
  qed
qed

lemma shrinks_postorder_loop:
  assumes "postorder_loop cap stack out s = Some r"
  shows "\<forall>out' s'. r = Inr (out', s') \<longrightarrow> shrinks s s'"
proof (rule postorder_loop.raw_induct[OF _ assms], goal_cases)
  case (1 pl cap stack out s r)
  show ?case
  proof (intro allI impI)
    fix out' s' assume r: "r = Inr (out', s')"
    show "shrinks s s'"
    proof (cases stack)
      case Nil
      with 1(2) r show ?thesis by (simp add: shrinks_refl)
    next
      case (Cons fr rest)
      obtain block index where fr: "fr = (block, index)" by (cases fr)
      show ?thesis
      proof (cases "index = num_succs (blocks s block)")
        case True
        with 1(2) Cons fr r have "pl cap rest (out @ [block]) s = Some r"
          by (simp split: if_splits)
        from 1(1)[OF this] r show ?thesis by blast
      next
        case False
        note ni = this
        show ?thesis
        proof (cases "index < length (b_succs (blocks s block))")
          case False
          with 1(2) Cons fr ni r show ?thesis by simp
        next
          case True
          let ?succ = "e_dst (edges s (b_succs (blocks s block) ! index))"
          show ?thesis
          proof (cases "visited (blocks s ?succ)")
            case True
            with 1(2) Cons fr ni \<open>index < length (b_succs (blocks s block))\<close>
            have "pl cap ((block, Suc index) # rest) out s = Some r" by (simp add: Let_def)
            from 1(1)[OF this] r show ?thesis by blast
          next
            case False
            with 1(2) Cons fr ni \<open>index < length (b_succs (blocks s block))\<close> r
            have "pl cap ((?succ, 0) # stack) out
                    (upd_block ?succ (\<lambda>bl. bl\<lparr>visited := True\<rparr>) s) = Some r"
              by (simp add: Let_def split: if_splits)
            from 1(1)[OF this] r shrinks_visited[of s ?succ True] show ?thesis
              by (blast intro: shrinks_trans)
          qed
        qed
      qed
    qed
  qed
qed

lemma shrinks_compute_postorder:
  assumes "compute_postorder s = Some (Inr (ok, s'))"
  shows "shrinks s s'"
proof -
  let ?s = "if block_order s \<noteq> [] then free_order s else s"
  have s0: "shrinks s ?s" by (simp add: shrinks_def succs_of_def free_order_def)
  from assms obtain n where n: "count_blocks ?s = Some n"
    by (auto simp: compute_postorder_def Let_def split: option.splits)
  show ?thesis
  proof (cases "mem ?s < 2")
    case True
    with assms n have "s' = ?s\<lparr>mem := 0\<rparr>" by (simp add: compute_postorder_def Let_def)
    then have "shrinks ?s s'" by (simp add: shrinks_def succs_of_def)
    with s0 show ?thesis by (rule shrinks_trans)
  next
    case False
    with assms n obtain entry out s1 where
      pl: "postorder_loop n [(entry, 0)] []
             (upd_block entry (\<lambda>bl. bl\<lparr>visited := True\<rparr>) (?s\<lparr>mem := mem ?s - 2\<rparr>)) = Some (Inr (out, s1))"
      and s': "s' = s1\<lparr>block_order := out\<rparr>"
      by (auto simp: compute_postorder_def Let_def obind_def split: option.splits sum.splits)
    have a: "shrinks ?s (?s\<lparr>mem := mem ?s - 2\<rparr>)" by (simp add: shrinks_def succs_of_def)
    have b: "shrinks (?s\<lparr>mem := mem ?s - 2\<rparr>)
               (upd_block entry (\<lambda>bl. bl\<lparr>visited := True\<rparr>) (?s\<lparr>mem := mem ?s - 2\<rparr>))"
      by (rule shrinks_visited)
    from shrinks_postorder_loop[OF pl] have c: "shrinks
        (upd_block entry (\<lambda>bl. bl\<lparr>visited := True\<rparr>) (?s\<lparr>mem := mem ?s - 2\<rparr>)) s1" by blast
    have d: "shrinks s1 s'" by (simp add: s' shrinks_def succs_of_def)
    from s0 a b c d show ?thesis by (blast intro: shrinks_trans)
  qed
qed

lemma shrinks_record_label:
  assumes "record_label w sz block label s = Some (Inr (ok, s'))"
  shows "shrinks s s'"
proof -
  have g: "shrinks s (s\<lparr>label_info := li, mem := m\<rparr>)" for li m
    by (simp add: shrinks_def succs_of_def)
  from assms show ?thesis
    by (auto simp: record_label_def Let_def split: if_splits option.splits
          intro: shrinks_refl shrinks_bind_label shrinks_trans[OF g shrinks_bind_label])
qed

lemma shrinks_inv: "shrinks s s' \<Longrightarrow> dead_end_inv s \<Longrightarrow> dead_end_inv s'"
  by (simp add: dead_end_inv_def shrinks_dead_end shrinks_owned)

lemma useless_branch_inv:
  assumes inv: "dead_end_inv s" and n1: "num_succs (blocks s b) = 1"
    and su: "b_succs (blocks s b) = e0 # es"
  shows "dead_end_inv (upd_edge e0 (\<lambda>e. e\<lparr>e_flags := JIT_EDGE_FALLTHRU\<rparr>)
                         (upd_block b (\<lambda>bl. bl\<lparr>ends_in_dead := False\<rparr>) s))"
proof -
  let ?s' = "upd_edge e0 (\<lambda>e. e\<lparr>e_flags := JIT_EDGE_FALLTHRU\<rparr>)
                         (upd_block b (\<lambda>bl. bl\<lparr>ends_in_dead := False\<rparr>) s)"
  have so: "succs_of ?s' c = succs_of s c" for c
    by (simp add: succs_of_def upd_edge_def upd_block_def)
  have e0: "e0 \<in> set (succs_of s b)" using n1 su by (simp add: succs_of_def)
  from inv have own: "\<And>c e. e \<in> set (succs_of s c) \<Longrightarrow> e_src (edges s e) = c"
    and de: "\<And>c e. ends_in_dead (blocks s c) \<Longrightarrow> e \<in> set (succs_of s c)
                 \<Longrightarrow> e_flags (edges s e) \<noteq> JIT_EDGE_FALLTHRU"
    by (auto simp: dead_end_inv_def succs_owned_def dead_end_consistent_def)
  have "succs_owned ?s'"
    unfolding succs_owned_def so using own by (simp add: upd_edge_def upd_block_def)
  moreover have "dead_end_consistent ?s'"
    unfolding dead_end_consistent_def so
  proof (intro allI impI ballI)
    fix c e assume d: "ends_in_dead (blocks ?s' c)" and e: "e \<in> set (succs_of s c)"
    from d have cb: "c \<noteq> b" and dc: "ends_in_dead (blocks s c)"
      by (auto simp: upd_edge_def upd_block_def split: if_splits)
    have "e \<noteq> e0"
    proof
      assume "e = e0"
      with e own[of e0 c] own[OF e0] cb show False by simp
    qed
    then have "e_flags (edges ?s' e) = e_flags (edges s e)"
      by (simp add: upd_edge_def upd_block_def)
    with de[OF dc e] show "e_flags (edges ?s' e) \<noteq> JIT_EDGE_FALLTHRU" by simp
  qed
  ultimately show ?thesis by (simp add: dead_end_inv_def)
qed

lemma branch_over_empty_inv:
  assumes inv: "dead_end_inv s" and n2: "num_succs (blocks s b) = 2"
    and su: "b_succs (blocks s b) = e0 # e1 # es"
    and fl: "e_flags (edges s e0) = JIT_EDGE_BRANCH"
    and de: "delete_edge e1 (upd_block b (\<lambda>bl. bl\<lparr>ends_in_dead := True\<rparr>) s) = Inr s'"
  shows "dead_end_inv s'"
proof -
  let ?s1 = "upd_block b (\<lambda>bl. bl\<lparr>ends_in_dead := True\<rparr>) s"
  from inv have own: "\<And>c e. e \<in> set (succs_of s c) \<Longrightarrow> e_src (edges s e) = c"
    and dd: "\<And>c e. ends_in_dead (blocks s c) \<Longrightarrow> e \<in> set (succs_of s c)
                 \<Longrightarrow> e_flags (edges s e) \<noteq> JIT_EDGE_FALLTHRU"
    by (auto simp: dead_end_inv_def succs_owned_def dead_end_consistent_def)
  have sb: "succs_of s b = [e0, e1]" using n2 su by (simp add: succs_of_def numeral_2_eq_2)
  then have src1: "e_src (edges s e1) = b" using own[of e1 b] by simp
  define s2 where
    "s2 = upd_block b (\<lambda>bl. bl\<lparr>b_succs := remove1 e1 [e0, e1], num_succs := num_succs bl - 1\<rparr>) ?s1"
  have ds: "detach_edge_src e1 ?s1 = Inr s2"
    using src1 n2 su
    by (simp add: detach_edge_src_def upd_block_def Let_def numeral_2_eq_2 s2_def)
  have s2b: "succs_of s2 b = [e0]"
    using n2 by (simp add: succs_of_def upd_block_def s2_def)
  have s2o: "succs_of s2 c = succs_of s c" if "c \<noteq> b" for c
    using that by (simp add: succs_of_def upd_block_def s2_def)
  have ed: "edges s2 = edges s" by (simp add: upd_block_def s2_def)
  have dc: "ends_in_dead (blocks s2 c) = (if c = b then True else ends_in_dead (blocks s c))" for c
    by (simp add: upd_block_def s2_def)
  have "succs_owned s2"
    unfolding succs_owned_def
  proof (intro allI ballI)
    fix c e assume e: "e \<in> set (succs_of s2 c)"
    show "e_src (edges s2 e) = c"
    proof (cases "c = b")
      case True
      with e s2b have "e = e0" by simp
      with own[of e0 b] sb True show ?thesis by (simp add: ed)
    next
      case False
      with e s2o own show ?thesis by (simp add: ed)
    qed
  qed
  moreover have "dead_end_consistent s2"
    unfolding dead_end_consistent_def
  proof (intro allI impI ballI)
    fix c e assume d: "ends_in_dead (blocks s2 c)" and e: "e \<in> set (succs_of s2 c)"
    show "e_flags (edges s2 e) \<noteq> JIT_EDGE_FALLTHRU"
    proof (cases "c = b")
      case True
      with e s2b have "e = e0" by simp
      with fl show ?thesis by (simp add: ed)
    next
      case False
      with d e s2o dd dc show ?thesis by (simp add: ed)
    qed
  qed
  ultimately have i2: "dead_end_inv s2" by (simp add: dead_end_inv_def)
  from de ds obtain s3 where "detach_edge_dst e1 s2 = Inr s3" and s': "s' = pool_dealloc e1 s3"
    by (auto simp: delete_edge_def ebind_def split: sum.splits)
  then have "shrinks s2 s'"
    using shrinks_detach_dst shrinks_pool_dealloc shrinks_trans by blast
  then show ?thesis using i2 by (rule shrinks_inv)
qed

lemma clean_branch_inv:
  assumes inv: "dead_end_inv s" and cb: "clean_branch b c s = Inr (c', s')"
  shows "dead_end_inv s'"
proof (cases "b_succs (blocks s b)")
  case Nil
  with cb show ?thesis by (simp add: clean_branch_def)
next
  case (Cons e0 es)
  show ?thesis
  proof (cases "e_flags (edges s e0) = JIT_EDGE_BRANCH")
    case False
    with cb Cons have "s' = s" by (simp add: clean_branch_def)
    with inv show ?thesis by simp
  next
    case True
    note br = this
    show ?thesis
    proof (cases "Some (e_dst (edges s e0)) = b_next (blocks s b)")
      case True
      with cb Cons br obtain s1 where so: "set_last_opcode b JIT_OP_NOP s = Inr s1"
        and r: "(if num_succs (blocks s1 b) = 1 then
                   Inr (True, upd_edge e0 (\<lambda>e. e\<lparr>e_flags := JIT_EDGE_FALLTHRU\<rparr>)
                               (upd_block b (\<lambda>b. b\<lparr>ends_in_dead := False\<rparr>) s1))
                 else ebind (delete_edge e0 s1) (\<lambda>s2. Inr (True, s2))) = Inr (c', s')"
        by (auto simp: clean_branch_def ebind_def split: sum.splits)
      have i1: "dead_end_inv s1" using shrinks_set_last_opcode[OF so] inv by (rule shrinks_inv)
      from so have su1: "b_succs (blocks s1 b) = e0 # es"
        using Cons by (auto simp: set_last_opcode_def upd_block_def split: option.splits)
      show ?thesis
      proof (cases "num_succs (blocks s1 b) = 1")
        case True
        with r have "s' = upd_edge e0 (\<lambda>e. e\<lparr>e_flags := JIT_EDGE_FALLTHRU\<rparr>)
                               (upd_block b (\<lambda>b. b\<lparr>ends_in_dead := False\<rparr>) s1)" by simp
        then show ?thesis using useless_branch_inv[OF i1 True su1] by simp
      next
        case False
        with r obtain s2 where "delete_edge e0 s1 = Inr s2" "s' = s2"
          by (auto simp: ebind_def split: sum.splits)
        then have "shrinks s1 s'" using shrinks_delete_edge by blast
        then show ?thesis using i1 by (rule shrinks_inv)
      qed
    next
      case False
      note nt = this
      show ?thesis
      proof (cases "s' = s")
        case True with inv show ?thesis by simp
      next
        case False
        with cb Cons br nt obtain n n0 ns s1 e1 es' where
          n2: "num_succs (blocks s b) = 2"
          and so: "set_last_opcode b JIT_OP_BR s = Inr s1"
          and es: "es = e1 # es'"
          and de: "delete_edge e1 (upd_block b (\<lambda>b. b\<lparr>ends_in_dead := True\<rparr>) s1) = Inr s'"
          by (auto simp: clean_branch_def ebind_def
                split: sum.splits option.splits list.splits if_splits)
        have i1: "dead_end_inv s1" using shrinks_set_last_opcode[OF so] inv by (rule shrinks_inv)
        from so have f1: "b_succs (blocks s1 b) = e0 # e1 # es'" "num_succs (blocks s1 b) = 2"
          "e_flags (edges s1 e0) = JIT_EDGE_BRANCH"
          using Cons es n2 br
          by (auto simp: set_last_opcode_def upd_block_def split: option.splits)
        from branch_over_empty_inv[OF i1 f1(2) f1(1) f1(3) de] show ?thesis .
      qed
    qed
  qed
qed

lemma clean_block_inv:
  assumes inv: "dead_end_inv s" and cb: "clean_block b c s = Some (Inr (c', s'))"
  shows "dead_end_inv s'"
proof (cases "num_succs (blocks s b) = 0")
  case True
  with cb inv show ?thesis by (simp add: clean_block_def)
next
  case False
  with cb obtain c1 s1 where br: "clean_branch b c s = Inr (c1, s1)"
    and r: "(if num_succs (blocks s1 b) = 1 then
               (case b_succs (blocks s1 b) of
                  [] \<Rightarrow> Some (Inl MEMORY_FAULT)
                | e0 # _ \<Rightarrow>
                    if (e_flags (edges s1 e0) = JIT_EDGE_BRANCH
                        \<or> e_flags (edges s1 e0) = JIT_EDGE_FALLTHRU)
                       \<and> is_empty_block (blocks s1 b)
                    then merge_empty b c1 s1
                    else Some (Inr (c1, s1)))
             else Some (Inr (c1, s1))) = Some (Inr (c', s'))"
    by (auto simp: clean_block_def split: sum.splits)
  have i1: "dead_end_inv s1" using inv br by (rule clean_branch_inv)
  from r have "s' = s1 \<or> merge_empty b c1 s1 = Some (Inr (c', s'))"
    by (auto split: if_splits list.splits)
  then show ?thesis
  proof
    assume "s' = s1" with i1 show ?thesis by simp
  next
    assume "merge_empty b c1 s1 = Some (Inr (c', s'))"
    then have "shrinks s1 s'" by (rule shrinks_merge_empty)
    then show ?thesis using i1 by (rule shrinks_inv)
  qed
qed

lemma clean_pass_inv:
  "dead_end_inv s \<Longrightarrow> clean_pass bs c s = Some (Inr (c', s')) \<Longrightarrow> dead_end_inv s'"
proof (induction bs arbitrary: c s)
  case Nil then show ?case by simp
next
  case (Cons b bs)
  from Cons.prems(2) obtain c1 s1 where a: "clean_block b c s = Some (Inr (c1, s1))"
    and r: "clean_pass bs c1 s1 = Some (Inr (c', s'))"
    by (auto simp: obind_def split: option.splits sum.splits)
  from clean_block_inv[OF Cons.prems(1) a] r show ?case by (rule Cons.IH)
qed

lemma clean_loop_inv:
  assumes "clean_loop s = Some r"
  shows "\<forall>s'. r = Inr s' \<longrightarrow> dead_end_inv s \<longrightarrow> dead_end_inv s'"
proof (rule clean_loop.raw_induct[OF _ assms], goal_cases)
  case (1 loop s r)
  show ?case
  proof (intro allI impI)
    fix s' assume r: "r = Inr s'" and inv: "dead_end_inv s"
    from 1(2) r obtain changed s1 where
      cp: "clean_pass (interior (block_order s)) False s = Some (Inr (changed, s1))"
      by (auto split: option.splits sum.splits)
    have i1: "dead_end_inv s1" using inv cp by (rule clean_pass_inv)
    show "dead_end_inv s'"
    proof (cases changed)
      case False
      with 1(2) cp r have "s' = s1" by simp
      with i1 show ?thesis by simp
    next
      case True
      with 1(2) cp r obtain s2 s3 where po: "compute_postorder s1 = Some (Inr (True, s2))"
        and cv: "clear_visited s2 = Some s3" and l: "loop s3 = Some r"
        by (auto split: option.splits sum.splits if_splits)
      have "shrinks s1 s2" using po by (rule shrinks_compute_postorder)
      moreover have "shrinks s2 s3"
        using cv unfolding clear_visited_def by (rule shrinks_clear_visited_from)
      ultimately have "dead_end_inv s3" using i1 by (blast intro: shrinks_inv)
      with 1(1)[OF l] r show ?thesis by blast
    qed
  qed
qed

lemma clean_cfg_inv:
  assumes inv: "dead_end_inv s" and c: "clean_cfg s = Some (Inr s')"
  shows "dead_end_inv s'"
proof -
  from c obtain s1 s2 where po: "compute_postorder s = Some (Inr (True, s1))"
    and eu: "eliminate_unreachable s1 = Some (Inr s2)" and l: "clean_loop s2 = Some (Inr s')"
    by (auto simp: clean_cfg_def obind_def split: option.splits sum.splits if_splits)
  have "shrinks s s1" using po by (rule shrinks_compute_postorder)
  moreover have "shrinks s1 s2"
    using shrinks_eliminate_unreachable_from[OF eu[unfolded eliminate_unreachable_def]] by blast
  ultimately have "dead_end_inv s2" using inv by (blast intro: shrinks_inv)
  with clean_loop_inv[OF l] show ?thesis by blast
qed

lemma shrinks_destroy_from:
  assumes "destroy_from p s = Some s'"
  shows "shrinks s s'"
proof (rule destroy_from.raw_induct[OF _ assms], goal_cases)
  case (1 df p s s')
  show ?case
  proof (cases p)
    case None
    with 1(2) show ?thesis by (simp add: shrinks_refl)
  next
    case (Some b)
    with 1(2) have "df (b_next (blocks s b)) (s\<lparr>destroyed := destroyed s @ [b]\<rparr>) = Some s'"
      by simp
    from 1(1)[OF this] have "shrinks (s\<lparr>destroyed := destroyed s @ [b]\<rparr>) s'" .
    moreover have "shrinks s (s\<lparr>destroyed := destroyed s @ [b]\<rparr>)"
      by (simp add: shrinks_def succs_of_def)
    ultimately show ?thesis by (blast intro: shrinks_trans)
  qed
qed

lemma shrinks_block_free:
  assumes "block_free s = Some s'"
  shows "shrinks s s'"
proof -
  from assms obtain s1 s2 where a: "destroy_from (entry_block s) (free_order s) = Some s1"
    and b: "destroy_from (deleted_blocks s1) s1 = Some s2"
    and c: "s' = s2\<lparr>entry_block := None, exit_block := None\<rparr>"
    by (auto simp: block_free_def split: Option.bind_splits)
  have "shrinks s (free_order s)" by (simp add: shrinks_def succs_of_def free_order_def)
  moreover note shrinks_destroy_from[OF a] shrinks_destroy_from[OF b]
  moreover have "shrinks s2 s'" by (simp add: c shrinks_def succs_of_def)
  ultimately show ?thesis by (blast intro: shrinks_trans)
qed

lemma explicit_not_fallthru:
  assumes "(fl, d) \<in> set (explicit_edges s b)"
  shows "fl \<noteq> JIT_EDGE_FALLTHRU"
proof (cases "block_get_last (blocks s b)")
  case None
  with assms show ?thesis by (simp add: explicit_edges_def)
next
  case (Some i)
  with assms show ?thesis
    by (cases "opcode i")
       (auto simp: explicit_edges_def target_edge_def split: option.splits)
qed

lemma fallthru_out_edge:
  "((JIT_EDGE_FALLTHRU, d) \<in> set (out_edges s b))
     = (\<not> ends_in_dead (blocks s b) \<and> b_next (blocks s b) = Some d)"
  using explicit_not_fallthru[of JIT_EDGE_FALLTHRU d s b]
  by (auto simp: out_edges_def target_edge_def split: option.splits)

lemma build_cfg_dead_end:
  assumes ff: "fresh_function s bs x rest"
  shows "\<exists>s'. build_cfg s = Some (Inr s')
     \<and> (\<forall>b \<in> set bs.
           (\<exists>e \<in> set (succs_of s' b). e_flags (edges s' e) = JIT_EDGE_FALLTHRU
                \<and> Some (e_dst (edges s' e)) = b_next (blocks s' b))
           = (\<not> ends_in_dead (blocks s' b)))
     \<and> dead_end_inv s'"
proof -
  from build_cfg_result[OF ff] obtain s' where bc: "build_cfg s = Some (Inr s')"
    and ce: "code_eq s s'"
    and res: "\<And>b. b \<in> set bs \<Longrightarrow> num_succs (blocks s' b) = length (out_edges s b)
           \<and> map (\<lambda>e. (e_src (edges s' e), e_flags (edges s' e), e_dst (edges s' e)))
                 (b_succs (blocks s' b)) = map (Pair b) (out_edges s b)"
    and oth: "\<And>b. b \<notin> set bs \<Longrightarrow> num_succs (blocks s' b) = 0"
    by blast
  from ce have dn: "\<And>b. ends_in_dead (blocks s' b) = ends_in_dead (blocks s b)"
    "\<And>b. b_next (blocks s' b) = b_next (blocks s b)" by (simp_all add: code_eq_def)
  from ff have p: "path s (entry_block s) bs (exit_block s)" and ex: "exit_block s \<noteq> None"
    by (simp_all add: fresh_function_def)
  have so: "succs_of s' b = b_succs (blocks s' b)" if "b \<in> set bs" for b
  proof -
    from res[OF that] have "length (map (\<lambda>e. (e_src (edges s' e), e_flags (edges s' e), e_dst (edges s' e)))
                 (b_succs (blocks s' b))) = length (map (Pair b) (out_edges s b))" by simp
    then have "length (b_succs (blocks s' b)) = length (out_edges s b)" by simp
    with res[OF that] show ?thesis by (simp add: succs_of_def)
  qed
  have so0: "succs_of s' b = []" if "b \<notin> set bs" for b
    using oth[OF that] by (simp add: succs_of_def)
  have img: "(\<lambda>e. (e_src (edges s' e), e_flags (edges s' e), e_dst (edges s' e))) ` set (succs_of s' b)
              = Pair b ` set (out_edges s b)" if "b \<in> set bs" for b
  proof -
    from res[OF that] have "set (map (\<lambda>e. (e_src (edges s' e), e_flags (edges s' e), e_dst (edges s' e)))
                 (b_succs (blocks s' b))) = set (map (Pair b) (out_edges s b))" by simp
    then show ?thesis unfolding so[OF that] by simp
  qed
  have mem1: "e_src (edges s' e) = b \<and> (e_flags (edges s' e), e_dst (edges s' e)) \<in> set (out_edges s b)"
    if "b \<in> set bs" "e \<in> set (succs_of s' b)" for b e
  proof -
    from that(2) have "(e_src (edges s' e), e_flags (edges s' e), e_dst (edges s' e))
        \<in> Pair b ` set (out_edges s b)" unfolding img[OF that(1), symmetric] by (rule imageI)
    then show ?thesis by auto
  qed
  have mem2: "\<exists>e \<in> set (succs_of s' b). e_flags (edges s' e) = fl \<and> e_dst (edges s' e) = d"
    if "b \<in> set bs" "(fl, d) \<in> set (out_edges s b)" for b fl d
  proof -
    from that(2) have "(b, fl, d) \<in> Pair b ` set (out_edges s b)" by (rule imageI)
    then have "(b, fl, d) \<in> (\<lambda>e. (e_src (edges s' e), e_flags (edges s' e), e_dst (edges s' e)))
                 ` set (succs_of s' b)" unfolding img[OF that(1)] .
    then show ?thesis by auto
  qed
  have iff: "(\<exists>e \<in> set (succs_of s' b). e_flags (edges s' e) = JIT_EDGE_FALLTHRU
                \<and> Some (e_dst (edges s' e)) = b_next (blocks s' b))
           = (\<not> ends_in_dead (blocks s' b))" if b: "b \<in> set bs" for b
  proof
    assume "\<exists>e \<in> set (succs_of s' b). e_flags (edges s' e) = JIT_EDGE_FALLTHRU
                \<and> Some (e_dst (edges s' e)) = b_next (blocks s' b)"
    then obtain e where e: "e \<in> set (succs_of s' b)" "e_flags (edges s' e) = JIT_EDGE_FALLTHRU" by blast
    from mem1[OF b e(1)] e(2) have "(JIT_EDGE_FALLTHRU, e_dst (edges s' e)) \<in> set (out_edges s b)"
      by simp
    then show "\<not> ends_in_dead (blocks s' b)" by (simp add: fallthru_out_edge dn)
  next
    assume nd: "\<not> ends_in_dead (blocks s' b)"
    from path_next[OF p ex b] obtain n where n: "b_next (blocks s b) = Some n" by blast
    with nd have "(JIT_EDGE_FALLTHRU, n) \<in> set (out_edges s b)" by (simp add: fallthru_out_edge dn)
    from mem2[OF b this] n show "\<exists>e \<in> set (succs_of s' b). e_flags (edges s' e) = JIT_EDGE_FALLTHRU
                \<and> Some (e_dst (edges s' e)) = b_next (blocks s' b)" by (auto simp: dn)
  qed
  have "dead_end_consistent s'"
    unfolding dead_end_consistent_def
  proof (intro allI impI ballI)
    fix b e assume d: "ends_in_dead (blocks s' b)" and e: "e \<in> set (succs_of s' b)"
    from e so0 have b: "b \<in> set bs" by (cases "b \<in> set bs") auto
    show "e_flags (edges s' e) \<noteq> JIT_EDGE_FALLTHRU"
    proof
      assume "e_flags (edges s' e) = JIT_EDGE_FALLTHRU"
      with mem1[OF b e] have "(JIT_EDGE_FALLTHRU, e_dst (edges s' e)) \<in> set (out_edges s b)" by simp
      with d show False by (simp add: fallthru_out_edge dn)
    qed
  qed
  moreover have "succs_owned s'"
    unfolding succs_owned_def
  proof (intro allI ballI)
    fix b e assume e: "e \<in> set (succs_of s' b)"
    from e so0 have b: "b \<in> set bs" by (cases "b \<in> set bs") auto
    from mem1[OF b e] show "e_src (edges s' e) = b" by simp
  qed
  ultimately have "dead_end_inv s'" by (simp add: dead_end_inv_def)
  with bc iff show ?thesis by blast
qed

text \<open>
  C7.  On a fresh function \<open>build_cfg\<close> succeeds, every block before the exit block
  then has a \<open>FALLTHRU\<close> edge to its list successor exactly when its \<open>ends_in_dead\<close> flag
  is unset, and the resulting state is dead-end consistent with every successor edge
  owned by its source.  From a state with these two properties, every state that
  \<open>clean_cfg\<close>, \<open>compute_postorder\<close>, \<open>record_label\<close>, \<open>_jit_block_detach\<close> or \<open>_jit_block_free\<close>
  returns has them again: a block with \<open>ends_in_dead\<close> set has no \<open>FALLTHRU\<close> edge among
  its successors.
\<close>

theorem dead_end_consistency:
  "(fresh_function s bs x rest \<longrightarrow>
      (\<exists>s'. build_cfg s = Some (Inr s')
         \<and> (\<forall>b \<in> set bs.
               (\<exists>e \<in> set (succs_of s' b). e_flags (edges s' e) = JIT_EDGE_FALLTHRU
                    \<and> Some (e_dst (edges s' e)) = b_next (blocks s' b))
               = (\<not> ends_in_dead (blocks s' b)))
         \<and> dead_end_consistent s' \<and> succs_owned s'))
   \<and> (dead_end_consistent s \<and> succs_owned s \<longrightarrow>
        (\<forall>s'. clean_cfg s = Some (Inr s') \<longrightarrow> dead_end_consistent s' \<and> succs_owned s')
      \<and> (\<forall>ok s'. compute_postorder s = Some (Inr (ok, s')) \<longrightarrow>
             dead_end_consistent s' \<and> succs_owned s')
      \<and> (\<forall>w sz block label ok s'. record_label w sz block label s = Some (Inr (ok, s')) \<longrightarrow>
             dead_end_consistent s' \<and> succs_owned s')
      \<and> (\<forall>f l s'. block_detach f l s = Inr s' \<longrightarrow> dead_end_consistent s' \<and> succs_owned s')
      \<and> (\<forall>s'. block_free s = Some s' \<longrightarrow> dead_end_consistent s' \<and> succs_owned s'))"
proof (intro conjI impI allI)
  assume "fresh_function s bs x rest"
  from build_cfg_dead_end[OF this]
  show "\<exists>s'. build_cfg s = Some (Inr s')
         \<and> (\<forall>b \<in> set bs.
               (\<exists>e \<in> set (succs_of s' b). e_flags (edges s' e) = JIT_EDGE_FALLTHRU
                    \<and> Some (e_dst (edges s' e)) = b_next (blocks s' b))
               = (\<not> ends_in_dead (blocks s' b)))
         \<and> dead_end_consistent s' \<and> succs_owned s'"
    by (simp add: dead_end_inv_def)
next
  fix s' assume "dead_end_consistent s \<and> succs_owned s" "clean_cfg s = Some (Inr s')"
  then have "dead_end_inv s" "clean_cfg s = Some (Inr s')" by (simp_all add: dead_end_inv_def)
  then have "dead_end_inv s'" by (rule clean_cfg_inv)
  then show "dead_end_consistent s'" "succs_owned s'" by (simp_all add: dead_end_inv_def)
next
  fix ok s' assume i: "dead_end_consistent s \<and> succs_owned s"
    and c: "compute_postorder s = Some (Inr (ok, s'))"
  from c have "shrinks s s'" by (rule shrinks_compute_postorder)
  with i show "dead_end_consistent s'" "succs_owned s'"
    by (auto intro: shrinks_dead_end shrinks_owned)
next
  fix w sz block label ok s' assume i: "dead_end_consistent s \<and> succs_owned s"
    and c: "record_label w sz block label s = Some (Inr (ok, s'))"
  from c have "shrinks s s'" by (rule shrinks_record_label)
  with i show "dead_end_consistent s'" "succs_owned s'"
    by (auto intro: shrinks_dead_end shrinks_owned)
next
  fix f l s' assume i: "dead_end_consistent s \<and> succs_owned s"
    and c: "block_detach f l s = Inr s'"
  from c have "shrinks s s'" by (rule shrinks_block_detach)
  with i show "dead_end_consistent s'" "succs_owned s'"
    by (auto intro: shrinks_dead_end shrinks_owned)
next
  fix s' assume i: "dead_end_consistent s \<and> succs_owned s"
    and c: "block_free s = Some s'"
  from c have "shrinks s s'" by (rule shrinks_block_free)
  with i show "dead_end_consistent s'" "succs_owned s'"
    by (auto intro: shrinks_dead_end shrinks_owned)
qed

theorem dead_end_consistency_witness:
  "fresh_function throw_example [0, 1] 2 []
   \<and> (\<exists>s' s''. build_cfg throw_example = Some (Inr s')
        \<and> ends_in_dead (blocks s' 1) \<and> \<not> ends_in_dead (blocks s' 0)
        \<and> (\<exists>e \<in> set (succs_of s' 0). e_flags (edges s' e) = JIT_EDGE_FALLTHRU)
        \<and> dead_end_consistent s' \<and> succs_owned s'
        \<and> clean_cfg s' = Some (Inr s'') \<and> dead_end_consistent s'' \<and> succs_owned s'')"
proof -
  from dead_end_consistency[of throw_example "[0, 1]" 2 "[]"] throw_example_fresh
  obtain s' where bc: "build_cfg throw_example = Some (Inr s')"
    and iff: "\<forall>b \<in> set [0, 1].
               (\<exists>e \<in> set (succs_of s' b). e_flags (edges s' e) = JIT_EDGE_FALLTHRU
                    \<and> Some (e_dst (edges s' e)) = b_next (blocks s' b))
               = (\<not> ends_in_dead (blocks s' b))"
    and inv: "dead_end_consistent s'" "succs_owned s'" by blast
  have ev: "case build_cfg throw_example of
              Some (Inr s1) \<Rightarrow> ends_in_dead (blocks s1 1) \<and> \<not> ends_in_dead (blocks s1 0)
                 \<and> (\<exists>s''. clean_cfg s1 = Some (Inr s''))
            | _ \<Rightarrow> False"
    by (simp add: throw_example_def build_defs clean_defs)
  with bc have d: "ends_in_dead (blocks s' 1)" "\<not> ends_in_dead (blocks s' 0)"
    and "\<exists>s''. clean_cfg s' = Some (Inr s'')" by simp_all
  then obtain s'' where cc: "clean_cfg s' = Some (Inr s'')" by blast
  from dead_end_consistency[of s' "[]" 0 "[]"] inv cc
  have inv2: "dead_end_consistent s''" "succs_owned s''" by blast+
  from iff d(2) have "\<exists>e \<in> set (succs_of s' 0). e_flags (edges s' e) = JIT_EDGE_FALLTHRU"
    by auto
  with throw_example_fresh bc d inv cc inv2 show ?thesis by blast
qed

section \<open>The post-order of the reachable blocks\<close>

lemma graph_eq_refl: "graph_eq s s" by (simp add: graph_eq_def)

lemma graph_eq_trans: "graph_eq s s' \<Longrightarrow> graph_eq s' s'' \<Longrightarrow> graph_eq s s''"
  by (simp add: graph_eq_def)

lemma graph_eq_visited: "graph_eq s (upd_block c (\<lambda>bl. bl\<lparr>visited := v\<rparr>) s)"
  by (simp add: graph_eq_def upd_block_def)

lemma graph_eq_dst: "graph_eq s s' \<Longrightarrow> dst_at s' b j = dst_at s b j"
  by (simp add: graph_eq_def dst_at_def)

lemma graph_eq_ok: "graph_eq s s' \<Longrightarrow> graph_ok R s \<Longrightarrow> graph_ok R s'"
  by (simp add: graph_ok_def graph_eq_dst) (simp add: graph_eq_def)

lemma dfs_room:
  assumes "finite R" "card R \<le> cap" "distinct (xs @ ys)" "set xs \<union> set ys \<subseteq> R"
  shows "length xs + length ys \<le> cap"
proof -
  have "length xs + length ys = card (set (xs @ ys))"
    using distinct_card[OF assms(3)] by simp
  also have "\<dots> \<le> card R" using assms(1,4) by (intro card_mono) auto
  finally show ?thesis using assms(2) by simp
qed

lemma dfs_pop:
  assumes inv: "dfs_inv R entry ((b, i) # rest) out s" and i: "i = num_succs (blocks s b)"
    and fin: "finite R" "card R \<le> cap"
  shows "length out < cap \<and> dfs_inv R entry rest (out @ [b]) s
         \<and> dfs_measure R rest s < dfs_measure R ((b, i) # rest) s"
proof -
  from inv have d: "distinct (map fst ((b, i) # rest) @ out)"
    and v: "{c. visited (blocks s c)} = set (map fst ((b, i) # rest)) \<union> set out"
    and r: "set (map fst ((b, i) # rest)) \<union> set out \<subseteq> R"
    and fr: "\<forall>(c, k) \<in> set ((b, i) # rest). k \<le> num_succs (blocks s c)
            \<and> (\<forall>j < k. visited (blocks s (dst_at s c j)))"
    and em: "\<forall>c \<in> set out. \<forall>j < num_succs (blocks s c). visited (blocks s (dst_at s c j))"
    and en: "fst (last ((b, i) # rest)) = entry"
    by (simp_all add: dfs_inv_def)
  from dfs_room[OF fin d r] have room: "length out < cap" by simp
  have d': "distinct (map fst rest @ out @ [b])" using d by auto
  have v': "{c. visited (blocks s c)} = set (map fst rest) \<union> set (out @ [b])" using v by auto
  have r': "set (map fst rest) \<union> set (out @ [b]) \<subseteq> R" using r by auto
  have fr': "\<forall>(c, k) \<in> set rest. k \<le> num_succs (blocks s c)
            \<and> (\<forall>j < k. visited (blocks s (dst_at s c j)))" using fr by auto
  have em': "\<forall>c \<in> set (out @ [b]). \<forall>j < num_succs (blocks s c). visited (blocks s (dst_at s c j))"
    using em fr i by auto
  have en': "if rest = [] then out @ [b] \<noteq> [] \<and> last (out @ [b]) = entry
             else fst (last rest) = entry"
    using en by (cases rest) auto
  have "dfs_inv R entry rest (out @ [b]) s"
    unfolding dfs_inv_def using d' v' r' fr' em' en' by simp
  moreover have "dfs_measure R rest s < dfs_measure R ((b, i) # rest) s"
    by (simp add: dfs_measure_def)
  ultimately show ?thesis using room by simp
qed

lemma dfs_skip:
  assumes inv: "dfs_inv R entry ((b, i) # rest) out s" and i: "i \<noteq> num_succs (blocks s b)"
    and vis: "visited (blocks s (dst_at s b i))"
  shows "dfs_inv R entry ((b, Suc i) # rest) out s
         \<and> dfs_measure R ((b, Suc i) # rest) s < dfs_measure R ((b, i) # rest) s"
proof -
  from inv have d: "distinct (map fst ((b, i) # rest) @ out)"
    and v: "{c. visited (blocks s c)} = set (map fst ((b, i) # rest)) \<union> set out"
    and r: "set (map fst ((b, i) # rest)) \<union> set out \<subseteq> R"
    and fr: "\<forall>(c, k) \<in> set ((b, i) # rest). k \<le> num_succs (blocks s c)
            \<and> (\<forall>j < k. visited (blocks s (dst_at s c j)))"
    and em: "\<forall>c \<in> set out. \<forall>j < num_succs (blocks s c). visited (blocks s (dst_at s c j))"
    and en: "fst (last ((b, i) # rest)) = entry"
    by (simp_all add: dfs_inv_def)
  from fr have fb: "i \<le> num_succs (blocks s b)" "\<forall>j < i. visited (blocks s (dst_at s b j))"
    by auto
  with i have lt: "i < num_succs (blocks s b)" by simp
  have fs: "\<forall>j < Suc i. visited (blocks s (dst_at s b j))"
    using fb(2) vis by (simp add: less_Suc_eq)
  have d': "distinct (map fst ((b, Suc i) # rest) @ out)" using d by simp
  have v': "{c. visited (blocks s c)} = set (map fst ((b, Suc i) # rest)) \<union> set out"
    using v by simp
  have r': "set (map fst ((b, Suc i) # rest)) \<union> set out \<subseteq> R" using r by simp
  have fr': "\<forall>(c, k) \<in> set ((b, Suc i) # rest). k \<le> num_succs (blocks s c)
            \<and> (\<forall>j < k. visited (blocks s (dst_at s c j)))"
    using fr fs lt by auto
  have en': "fst (last ((b, Suc i) # rest)) = entry" using en by (cases rest) auto
  have "dfs_inv R entry ((b, Suc i) # rest) out s"
    unfolding dfs_inv_def using d' v' r' fr' em en' by simp
  moreover have "dfs_measure R ((b, Suc i) # rest) s < dfs_measure R ((b, i) # rest) s"
    using lt by (simp add: dfs_measure_def)
  ultimately show ?thesis by simp
qed

lemma dfs_push:
  assumes inv: "dfs_inv R entry ((b, i) # rest) out s" and i: "i \<noteq> num_succs (blocks s b)"
    and nv: "\<not> visited (blocks s (dst_at s b i))"
    and ok: "graph_ok R s" and fin: "finite R" "card R \<le> cap"
  shows "length ((b, i) # rest) < cap
     \<and> dfs_inv R entry ((dst_at s b i, 0) # (b, i) # rest) out
          (upd_block (dst_at s b i) (\<lambda>bl. bl\<lparr>visited := True\<rparr>) s)
     \<and> dfs_measure R ((dst_at s b i, 0) # (b, i) # rest)
          (upd_block (dst_at s b i) (\<lambda>bl. bl\<lparr>visited := True\<rparr>) s)
        < dfs_measure R ((b, i) # rest) s"
proof -
  define c where "c = dst_at s b i"
  define s1 where "s1 = upd_block c (\<lambda>bl. bl\<lparr>visited := True\<rparr>) s"
  from inv have d: "distinct (map fst ((b, i) # rest) @ out)"
    and v: "{x. visited (blocks s x)} = set (map fst ((b, i) # rest)) \<union> set out"
    and r: "set (map fst ((b, i) # rest)) \<union> set out \<subseteq> R"
    and fr: "\<forall>(x, k) \<in> set ((b, i) # rest). k \<le> num_succs (blocks s x)
            \<and> (\<forall>j < k. visited (blocks s (dst_at s x j)))"
    and em: "\<forall>x \<in> set out. \<forall>j < num_succs (blocks s x). visited (blocks s (dst_at s x j))"
    and en: "fst (last ((b, i) # rest)) = entry"
    by (simp_all add: dfs_inv_def)
  from fr i have lt: "i < num_succs (blocks s b)" by auto
  from r have bR: "b \<in> R" by simp
  with ok lt have cR: "c \<in> R" by (simp add: graph_ok_def c_def)
  from nv v have cn: "c \<notin> set (map fst ((b, i) # rest)) \<union> set out"
    unfolding c_def by blast
  have ge: "graph_eq s s1" unfolding s1_def by (rule graph_eq_visited)
  then have ns: "\<And>x. num_succs (blocks s1 x) = num_succs (blocks s x)"
    and da: "\<And>x j. dst_at s1 x j = dst_at s x j"
    by (simp_all add: graph_eq_def dst_at_def)
  have vs: "\<And>x. visited (blocks s1 x) = (x = c \<or> visited (blocks s x))"
    by (simp add: s1_def upd_block_def)
  have d1: "distinct ((c # map fst ((b, i) # rest)) @ out)" using d cn by simp
  have r1: "set (c # map fst ((b, i) # rest)) \<union> set out \<subseteq> R" using r cR by simp
  from dfs_room[OF fin d1 r1] have room: "length ((b, i) # rest) < cap" by simp
  have d': "distinct (map fst ((c, 0) # (b, i) # rest) @ out)" using d1 by simp
  have v': "{x. visited (blocks s1 x)} = set (map fst ((c, 0) # (b, i) # rest)) \<union> set out"
    using v by (auto simp: vs)
  have r': "set (map fst ((c, 0) # (b, i) # rest)) \<union> set out \<subseteq> R" using r1 by simp
  have fr': "\<forall>(x, k) \<in> set ((c, 0) # (b, i) # rest). k \<le> num_succs (blocks s1 x)
            \<and> (\<forall>j < k. visited (blocks s1 (dst_at s1 x j)))"
    using fr by (auto simp: ns da vs)
  have em': "\<forall>x \<in> set out. \<forall>j < num_succs (blocks s1 x). visited (blocks s1 (dst_at s1 x j))"
    using em by (simp add: ns da vs)
  have en': "fst (last ((c, 0) # (b, i) # rest)) = entry" using en by simp
  have inv': "dfs_inv R entry ((c, 0) # (b, i) # rest) out s1"
    unfolding dfs_inv_def using d' v' r' fr' em' en' by simp
  let ?A = "{x \<in> R. \<not> visited (blocks s x)}"
  let ?f = "\<lambda>x. num_succs (blocks s x) + 2"
  have A1: "{x \<in> R. \<not> visited (blocks s1 x)} = ?A - {c}" by (auto simp: vs)
  have cA: "c \<in> ?A" using cR nv by (simp add: c_def)
  have fA: "finite ?A" using fin(1) by simp
  have sm: "sum ?f ?A = ?f c + sum ?f (?A - {c})" using fA cA by (rule sum.remove)
  have fl: "map (\<lambda>(x, k). num_succs (blocks s1 x) - k + 1) ((b, i) # rest)
          = map (\<lambda>(x, k). num_succs (blocks s x) - k + 1) ((b, i) # rest)"
    by (simp add: ns)
  have "dfs_measure R ((c, 0) # (b, i) # rest) s1 < dfs_measure R ((b, i) # rest) s"
    unfolding dfs_measure_def A1 using sm fl by (simp add: ns)
  with room inv' show ?thesis unfolding c_def s1_def by simp
qed

lemma postorder_loop_total:
  assumes "finite R" "card R \<le> cap" "graph_ok R s" "dfs_inv R entry stack out s"
  shows "\<exists>out' s'. postorder_loop cap stack out s = Some (Inr (out', s'))
           \<and> graph_eq s s' \<and> dfs_inv R entry [] out' s'"
  using assms
proof (induction "dfs_measure R stack s" arbitrary: stack out s rule: less_induct)
  case less
  note fin = less.prems(1,2) and ok = less.prems(3) and inv = less.prems(4)
  show ?case
  proof (cases stack)
    case Nil
    then have "postorder_loop cap stack out s = Some (Inr (out, s))"
      by (subst postorder_loop.simps) simp
    with inv Nil show ?thesis by (auto simp: graph_eq_refl)
  next
    case (Cons fr rest)
    obtain b i where fr: "fr = (b, i)" by (cases fr)
    note st = Cons[unfolded fr]
    show ?thesis
    proof (cases "i = num_succs (blocks s b)")
      case True
      from dfs_pop[OF inv[unfolded st] True fin] have room: "length out < cap"
        and inv': "dfs_inv R entry rest (out @ [b]) s"
        and m: "dfs_measure R rest s < dfs_measure R stack s" unfolding st by simp_all
      from less.hyps[OF m fin ok inv'] obtain out' s' where
        r: "postorder_loop cap rest (out @ [b]) s = Some (Inr (out', s'))"
        and g: "graph_eq s s'" and f: "dfs_inv R entry [] out' s'" by blast
      have "postorder_loop cap stack out s = Some (Inr (out', s'))"
        using True room r by (subst postorder_loop.simps) (simp add: st)
      with g f show ?thesis by blast
    next
      case False
      from inv[unfolded st] have "i \<le> num_succs (blocks s b)" "b \<in> R"
        by (simp_all add: dfs_inv_def)
      with False ok have il: "i < length (b_succs (blocks s b))"
        by (auto simp: graph_ok_def)
      show ?thesis
      proof (cases "visited (blocks s (dst_at s b i))")
        case True
        from dfs_skip[OF inv[unfolded st] False True]
        have inv': "dfs_inv R entry ((b, Suc i) # rest) out s"
          and m: "dfs_measure R ((b, Suc i) # rest) s < dfs_measure R stack s"
          unfolding st by simp_all
        from less.hyps[OF m fin ok inv'] obtain out' s' where
          r: "postorder_loop cap ((b, Suc i) # rest) out s = Some (Inr (out', s'))"
          and g: "graph_eq s s'" and f: "dfs_inv R entry [] out' s'" by blast
        have "postorder_loop cap stack out s = Some (Inr (out', s'))"
          using False il True r
          by (subst postorder_loop.simps) (simp add: st dst_at_def Let_def)
        with g f show ?thesis by blast
      next
        case nv: False
        let ?c = "dst_at s b i"
        let ?s1 = "upd_block ?c (\<lambda>bl. bl\<lparr>visited := True\<rparr>) s"
        from dfs_push[OF inv[unfolded st] False nv ok fin]
        have room: "length stack < cap"
          and inv': "dfs_inv R entry ((?c, 0) # stack) out ?s1"
          and m: "dfs_measure R ((?c, 0) # stack) ?s1 < dfs_measure R stack s"
          unfolding st by simp_all
        have g1: "graph_eq s ?s1" by (rule graph_eq_visited)
        have ok1: "graph_ok R ?s1" using g1 ok by (rule graph_eq_ok)
        from less.hyps[OF m fin ok1 inv'] obtain out' s' where
          r: "postorder_loop cap ((?c, 0) # stack) out ?s1 = Some (Inr (out', s'))"
          and g: "graph_eq ?s1 s'" and f: "dfs_inv R entry [] out' s'" by blast
        have "postorder_loop cap stack out s = Some (Inr (out', s'))"
          using False il nv room r
          by (subst postorder_loop.simps) (simp add: st dst_at_def Let_def)
        moreover have "graph_eq s s'" using g1 g by (rule graph_eq_trans)
        ultimately show ?thesis using f by blast
      qed
    qed
  qed
qed

lemma graph_eq_succ: "graph_eq s s' \<Longrightarrow> cfg_succ s' = cfg_succ s"
  by (simp add: cfg_succ_def graph_eq_def dst_at_def)

lemma graph_eq_reachable: "graph_eq s s' \<Longrightarrow> reachable_from s' e = reachable_from s e"
  by (simp add: reachable_from_def graph_eq_succ)

lemma graph_eq_sym: "graph_eq s s' \<Longrightarrow> graph_eq s' s"
  by (simp add: graph_eq_def)

lemma count_blocks_from_path:
  "path s p all None \<Longrightarrow> count_blocks_from p n s = Some (n + length all)"
proof (induction "all" arbitrary: p n)
  case Nil
  then show ?case by (subst count_blocks_from.simps) simp
next
  case (Cons b bs)
  from Cons.prems have p: "p = Some b" and r: "path s (b_next (blocks s b)) bs None" by simp_all
  from Cons.IH[OF r, of "Suc n"] show ?case
    by (subst count_blocks_from.simps) (simp add: p)
qed

lemma reachable_closed:
  assumes "graph_ok R s" "entry \<in> R"
  shows "reachable_from s entry \<subseteq> R"
proof
  fix x assume "x \<in> reachable_from s entry"
  then have "(entry, x) \<in> (cfg_succ s)\<^sup>*" by (simp add: reachable_from_def)
  then show "x \<in> R"
  proof (induction rule: rtrancl_induct)
    case base
    show ?case by (rule assms(2))
  next
    case (step y z)
    from step.hyps(2) obtain j where "j < num_succs (blocks s y)" "z = dst_at s y j"
      by (auto simp: cfg_succ_def)
    with step.IH assms(1) show ?case by (simp add: graph_ok_def)
  qed
qed

lemma graph_ok_reachable:
  assumes "graph_ok R s" "entry \<in> R"
  shows "graph_ok (reachable_from s entry) s"
proof -
  have sub: "reachable_from s entry \<subseteq> R" using assms by (rule reachable_closed)
  have "\<And>b j. b \<in> reachable_from s entry \<Longrightarrow> j < num_succs (blocks s b)
          \<Longrightarrow> dst_at s b j \<in> reachable_from s entry"
  proof -
    fix b j assume b: "b \<in> reachable_from s entry" and j: "j < num_succs (blocks s b)"
    from j have "(b, dst_at s b j) \<in> cfg_succ s" by (auto simp: cfg_succ_def)
    with b show "dst_at s b j \<in> reachable_from s entry"
      unfolding reachable_from_def by (auto intro: rtrancl_into_rtrancl)
  qed
  with sub assms(1) show ?thesis unfolding graph_ok_def by blast
qed

lemma dfs_complete:
  assumes "dfs_inv R entry [] out s"
  shows "reachable_from s entry \<subseteq> set out"
proof
  from assms have v: "{b. visited (blocks s b)} = set out"
    and cl: "\<forall>b \<in> set out. \<forall>j < num_succs (blocks s b). visited (blocks s (dst_at s b j))"
    and ne: "out \<noteq> []" and en: "last out = entry"
    by (simp_all add: dfs_inv_def)
  fix x assume "x \<in> reachable_from s entry"
  then have "(entry, x) \<in> (cfg_succ s)\<^sup>*" by (simp add: reachable_from_def)
  then show "x \<in> set out"
  proof (induction rule: rtrancl_induct)
    case base
    from ne en show ?case using last_in_set by blast
  next
    case (step y z)
    from step.hyps(2) obtain j where j: "j < num_succs (blocks s y)" and z: "z = dst_at s y j"
      by (auto simp: cfg_succ_def)
    from cl step.IH j have "visited (blocks s (dst_at s y j))" by blast
    with v z show ?case by blast
  qed
qed

lemma dfs_init:
  assumes "\<forall>b. \<not> visited (blocks s b)" "entry \<in> R"
  shows "dfs_inv R entry [(entry, 0)] [] (upd_block entry (\<lambda>bl. bl\<lparr>visited := True\<rparr>) s)"
  using assms by (auto simp: dfs_inv_def upd_block_def)

lemma path_same_links:
  "(\<And>b. b_next (blocks s' b) = b_next (blocks s b)) \<Longrightarrow> path s' p bs q = path s p bs q"
  by (induction bs arbitrary: p) simp_all

text \<open>
  C5, as amended.  When no block is flagged \<open>visited\<close>, the live list runs from the entry
  block to its end through \<open>all\<close>, the successor counters of the live blocks lie within
  their arrays, their successor edges lead to live blocks, and the two arrays can be
  allocated, \<open>compute_postorder\<close> returns 1; \<open>block_order\<close> then holds each block that the
  entry block reaches along successor edges exactly once and no other block, the entry
  block is its last element, and the \<open>visited\<close> blocks are the reachable ones.
\<close>

theorem compute_postorder_reachable:
  assumes e: "entry_block s = Some entry"
    and nv: "\<forall>b. \<not> visited (blocks s b)"
    and p: "path s (Some entry) all None"
    and ok: "graph_ok (set all) s"
    and m: "2 \<le> mem s"
  shows "\<exists>s'. compute_postorder s = Some (Inr (True, s'))
           \<and> distinct (block_order s')
           \<and> set (block_order s') = reachable_from s entry
           \<and> last (block_order s') = entry
           \<and> (\<forall>b. visited (blocks s' b) = (b \<in> reachable_from s entry))"
proof -
  define s0 where "s0 = (if block_order s \<noteq> [] then free_order s else s)"
  define s1 where "s1 = upd_block entry (\<lambda>bl. bl\<lparr>visited := True\<rparr>) (s0\<lparr>mem := mem s0 - 2\<rparr>)"
  let ?R = "reachable_from s entry"
  have b0: "blocks s0 = blocks s" and e0: "entry_block s0 = Some entry"
    and m0: "\<not> mem s0 < 2" and ed0: "edges s0 = edges s"
    using e m by (simp_all add: s0_def free_order_def)
  have g1: "graph_eq s s1"
    by (simp add: graph_eq_def s1_def upd_block_def b0 ed0)
  have "path s0 (Some entry) all None"
    using p by (simp add: path_same_links[of s0 s] b0)
  then have cnt: "count_blocks s0 = Some (length all)"
    unfolding count_blocks_def e0 using count_blocks_from_path[of s0 "Some entry" "all" 0] by simp
  from p have ea: "entry \<in> set all" by (cases "all") auto
  have sub: "?R \<subseteq> set all" using ok ea by (rule reachable_closed)
  then have fin: "finite ?R" by (rule finite_subset) simp
  have "card ?R \<le> card (set all)" using sub by (intro card_mono) simp_all
  also have "\<dots> \<le> length all" by (rule card_length)
  finally have card: "card ?R \<le> length all" .
  have okR: "graph_ok ?R s1" using g1 graph_ok_reachable[OF ok ea] by (rule graph_eq_ok)
  have eR: "entry \<in> ?R" by (simp add: reachable_from_def)
  have "\<forall>b. \<not> visited (blocks (s0\<lparr>mem := mem s0 - 2\<rparr>) b)" using nv by (simp add: b0)
  then have "dfs_inv ?R entry [(entry, 0)] [] s1" unfolding s1_def using eR by (rule dfs_init)
  from postorder_loop_total[OF fin card okR this] obtain out s2 where
    lp: "postorder_loop (length all) [(entry, 0)] [] s1 = Some (Inr (out, s2))"
    and g2: "graph_eq s1 s2" and inv: "dfs_inv ?R entry [] out s2" by blast
  have r2: "reachable_from s2 entry = ?R"
    using graph_eq_trans[OF g1 g2] by (rule graph_eq_reachable)
  from inv have d: "distinct out" and v: "{b. visited (blocks s2 b)} = set out"
    and r: "set out \<subseteq> ?R" and l: "last out = entry"
    by (simp_all add: dfs_inv_def)
  from dfs_complete[OF inv] r r2 have so: "set out = ?R" by simp
  have cp: "compute_postorder s = Some (Inr (True, s2\<lparr>block_order := out\<rparr>))"
    unfolding compute_postorder_def Let_def s0_def[symmetric]
    using cnt m0 e0 lp by (simp add: s1_def obind_def)
  have vv: "\<forall>b. visited (blocks (s2\<lparr>block_order := out\<rparr>) b) = (b \<in> ?R)"
    using v so by auto
  from cp d so l vv show ?thesis by simp
qed

theorem compute_postorder_reachable_witness:
  "entry_block (built scenario_S2) = Some 0
   \<and> (\<forall>b. \<not> visited (blocks (built scenario_S2) b))
   \<and> path (built scenario_S2) (Some 0) [0, 1, 2, 3, 4] None
   \<and> graph_ok (set [0, 1, 2, 3, 4]) (built scenario_S2)
   \<and> 2 \<le> mem (built scenario_S2)
   \<and> (\<exists>s'. compute_postorder (built scenario_S2) = Some (Inr (True, s'))
          \<and> block_order s' = [4, 3, 1, 0]
          \<and> (\<forall>b. visited (blocks s' b) = (b \<in> {0, 1, 3, 4})))
   \<and> reachable_from (built scenario_S2) 0 = {0, 1, 3, 4}"
proof -
  have h: "entry_block (built scenario_S2) = Some 0"
    "\<forall>b. \<not> visited (blocks (built scenario_S2) b)"
    "path (built scenario_S2) (Some 0) [0, 1, 2, 3, 4] None"
    "graph_ok (set [0, 1, 2, 3, 4]) (built scenario_S2)"
    "2 \<le> mem (built scenario_S2)"
    by (simp_all add: built_def scenario_S2_def graph_ok_def dst_at_def build_defs)
  have ev: "case compute_postorder (built scenario_S2) of
              Some (Inr (ok, s')) \<Rightarrow> block_order s' = [4, 3, 1, 0] | _ \<Rightarrow> False"
    by (simp add: built_def scenario_S2_def build_defs clean_defs)
  from compute_postorder_reachable[OF h] obtain s' where
    cp: "compute_postorder (built scenario_S2) = Some (Inr (True, s'))"
    and st: "set (block_order s') = reachable_from (built scenario_S2) 0"
    and vs: "\<forall>b. visited (blocks s' b) = (b \<in> reachable_from (built scenario_S2) 0)"
    by blast
  from ev cp have bo: "block_order s' = [4, 3, 1, 0]" by simp
  have "reachable_from (built scenario_S2) 0 = set [4, 3, 1, 0]" using st bo by simp
  also have "\<dots> = {0, 1, 3, 4}" by auto
  finally have re: "reachable_from (built scenario_S2) 0 = {0, 1, 3, 4}" .
  from vs have vs': "\<forall>b. visited (blocks s' b) = (b \<in> {0, 1, 3, 4})" unfolding re .
  from cp bo vs' have "\<exists>s'. compute_postorder (built scenario_S2) = Some (Inr (True, s'))
          \<and> block_order s' = [4, 3, 1, 0]
          \<and> (\<forall>b. visited (blocks s' b) = (b \<in> {0, 1, 3, 4}))" by blast
  with h re show ?thesis by (intro conjI)
qed

text \<open>
  C5 as stated fails.  \<open>eliminate_unreachable\<close> stops at the exit block and leaves its
  \<open>visited\<close> flag set.  In scenario S2, at the label \<open>loop\<close> of the cleaner, the exit block
  \<open>4\<close> is reachable from the entry block, along \<open>0 \<rightarrow> 1 \<rightarrow> 3 \<rightarrow> 4\<close>, and
  \<open>compute_postorder\<close> returns 1 with the post-order \<open>[3, 1, 0]\<close>, which omits it.
\<close>

theorem postorder_skips_flagged_exit:
  "entry_block (after_phase1 (built scenario_S2)) = Some 0
   \<and> exit_block (after_phase1 (built scenario_S2)) = Some 4
   \<and> 4 \<in> reachable_from (after_phase1 (built scenario_S2)) 0
   \<and> (case compute_postorder (after_phase1 (built scenario_S2)) of
         Some (Inr (ok, s')) \<Rightarrow> ok \<and> block_order s' = [3, 1, 0]
       | _ \<Rightarrow> False)"
proof -
  let ?s = "after_phase1 (built scenario_S2)"
  have e: "entry_block ?s = Some 0" "exit_block ?s = Some 4"
    by (simp_all add: after_phase1_def built_def scenario_S2_def build_defs clean_defs)
  have st: "(0, 1) \<in> cfg_succ ?s" "(1, 3) \<in> cfg_succ ?s" "(3, 4) \<in> cfg_succ ?s"
    by (simp_all add: cfg_succ_def dst_at_def after_phase1_def built_def scenario_S2_def
          build_defs clean_defs)
  have "(0, 1) \<in> (cfg_succ ?s)\<^sup>*" using st(1) by (rule r_into_rtrancl)
  then have "(0, 3) \<in> (cfg_succ ?s)\<^sup>*" using st(2) by (rule rtrancl_into_rtrancl)
  then have "(0, 4) \<in> (cfg_succ ?s)\<^sup>*" using st(3) by (rule rtrancl_into_rtrancl)
  then have r: "4 \<in> reachable_from ?s 0" by (simp add: reachable_from_def)
  have c: "case compute_postorder ?s of
         Some (Inr (ok, s')) \<Rightarrow> ok \<and> block_order s' = [3, 1, 0]
       | _ \<Rightarrow> False"
    by (simp add: after_phase1_def built_def scenario_S2_def build_defs clean_defs)
  from e r c show ?thesis by (intro conjI)
qed

end
